theory Spec2Isabelle
  imports Main "HOL-Library.AList" "HOL-Library.Sublist" "HOL-Library.Char_ord"
    "HOL-Library.List_Lexorder"
begin

section \<open>The blob store (firebase\_storage.py)\<close>

text \<open>
  The assigner of workset\_auto\_assigner.py keeps all of its state in a key-addressed
  blob store. A task record is a CSV table with the columns \<open>workset\<close>, \<open>status\<close> and,
  once the assigner has written to it, \<open>auto_assigned\<close>. An empty \<open>workset\<close> cell (NaN in
  pandas) is \<open>None\<close>; an absent or empty \<open>auto_assigned\<close> cell compares unequal to
  \<open>True\<close> and is \<open>False\<close> here. The columns \<open>assigned_at\<close> and \<open>assignment_type\<close> are
  written and never read, and are left out, as are all other time stamps that are only
  written.
\<close>

record task_row =
  workset :: "string option"
  status :: string
  auto_assigned :: bool

record lock_data =
  lock_workset :: string
  owner :: string
  competition_id :: string
  timestamp :: string
  lock_status :: string
  expires_at :: "string option"

text \<open>
  Each kind of object the program stores has its own constructor: a task record, the
  \<open>workset_usage\<close> dictionary of the usage statistics, a competition or lock file, a
  dataset (its rows), a materialized workset file (rows with their \<open>Progress\<close> cell) and
  the assignment log (username and workset of every entry). Reading an object of another
  kind than the caller expects is treated like an object that does not parse.
\<close>

datatype blob =
    Csv "task_row list"
  | Usage "string \<rightharpoonup> int"
  | Lock lock_data
  | Dataset "string list"
  | Workset_file "(string \<times> string) list"
  | Log "(string \<times> string) list"

type_synonym store = "(string \<times> blob) list"

text \<open>
  The storage client can fail. Which request fails is a parameter of the model: listing a
  folder, reading an object, deleting an object, and for an upload whether the content is
  stored and its metadata patched (\<open>Stored\<close>), nothing is stored (\<open>Rejected\<close>), or the
  content is stored and the following \<open>blob.patch()\<close> raises (\<open>Stored_unpatched\<close>).

  The outcome is decided request by request. A request is identified by the name of its
  object and by its place in the run: the chain of steps of the program that leads to it,
  outermost step first. The same object can therefore be read at one step and fail to be
  read at a later one. The steps are those of the functions below; \<open>Attempt\<close> carries the
  number of the attempt and \<open>Candidate\<close> the number of the workset that a scan is
  checking. Within one pass over a listing every listed object is requested once, so the
  requests of a pass are told apart by the object names.
\<close>

datatype upload_outcome = Stored | Rejected | Stored_unpatched

datatype step =
    Pending_check | Attempt nat | Scan | Acquire | Recheck | Commit | Release
  | Ledger | Candidate nat
  | Announce | Settle | Confirm | Cleanup | Withdraw
  | Completed_check | Count | Increment | Append | Materialize | Rollback | Remove | Log_entry
  | Listing | Read | Write | Delete | Regenerate

record faults =
  list_fails :: "step list \<Rightarrow> string \<Rightarrow> bool"
  download_fails :: "step list \<Rightarrow> string \<Rightarrow> bool"
  upload_outcome_of :: "step list \<Rightarrow> string \<Rightarrow> upload_outcome"
  delete_fails :: "step list \<Rightarrow> string \<Rightarrow> bool"

definition reliable :: faults where
  "reliable = \<lparr>list_fails = (\<lambda>_ _. False), download_fails = (\<lambda>_ _. False),
     upload_outcome_of = (\<lambda>_ _. Stored), delete_fails = (\<lambda>_ _. False)\<rparr>"

text \<open>
  \<open>during l f\<close> is the behaviour of the client inside step \<open>l\<close>: a function receives the
  behaviour for its own run and hands \<open>during l\<close> of it to the function it calls at step
  \<open>l\<close>; the storage functions themselves are the end of the chain.
\<close>

definition during :: "step \<Rightarrow> faults \<Rightarrow> faults" where
  "during l f =
     \<lparr>list_fails = (\<lambda>site. list_fails f (l # site)),
      download_fails = (\<lambda>site. download_fails f (l # site)),
      upload_outcome_of = (\<lambda>site. upload_outcome_of f (l # site)),
      delete_fails = (\<lambda>site. delete_fails f (l # site))\<rparr>"

text \<open>
  \<open>bucket.list_blobs(prefix=...)\<close>: the names with the prefix, in the lexicographic order
  in which the bucket lists them; \<open>None\<close> when the client raises.
\<close>

definition bucket_list_blobs :: "faults \<Rightarrow> store \<Rightarrow> string \<Rightarrow> string list option" where
  "bucket_list_blobs f s pre =
     (if list_fails f [] pre then None else Some (sort (filter (prefix pre) (map fst s))))"

text \<open>\<open>FirebaseStorage.list_files\<close>: an exception of the client is caught and becomes \<open>[]\<close>.\<close>

definition list_files :: "faults \<Rightarrow> store \<Rightarrow> string \<Rightarrow> string list" where
  "list_files f s folder =
     (let folder_path = (if folder \<noteq> [] \<and> \<not> suffix ''/'' folder then folder @ ''/'' else folder)
      in case bucket_list_blobs f s folder_path of
           None \<Rightarrow> []
         | Some names \<Rightarrow> filter (\<lambda>name. \<not> suffix ''/'' name) names)"

text \<open>\<open>blob.exists()\<close> and \<open>blob.download_as_bytes()\<close>; the outer \<open>None\<close> when the client raises.\<close>

definition blob_download :: "faults \<Rightarrow> store \<Rightarrow> string \<Rightarrow> blob option option" where
  "blob_download f s path = (if download_fails f [] path then None else Some (map_of s path))"

text \<open>\<open>FirebaseStorage.download\<close>: a missing object and a failed request both give \<open>None\<close>.\<close>

definition download :: "faults \<Rightarrow> store \<Rightarrow> string \<Rightarrow> blob option" where
  "download f s path = (case blob_download f s path of None \<Rightarrow> None | Some content \<Rightarrow> content)"

definition download_csv :: "faults \<Rightarrow> store \<Rightarrow> string \<Rightarrow> task_row list option" where
  "download_csv f s path = (case download f s path of Some (Csv df) \<Rightarrow> Some df | _ \<Rightarrow> None)"

definition download_dataset_csv :: "faults \<Rightarrow> store \<Rightarrow> string \<Rightarrow> string list option" where
  "download_dataset_csv f s path =
     (case download f s path of Some (Dataset df) \<Rightarrow> Some df | _ \<Rightarrow> None)"

definition download_log_csv :: "faults \<Rightarrow> store \<Rightarrow> string \<Rightarrow> (string \<times> string) list option" where
  "download_log_csv f s path = (case download f s path of Some (Log df) \<Rightarrow> Some df | _ \<Rightarrow> None)"

definition download_json :: "faults \<Rightarrow> store \<Rightarrow> string \<Rightarrow> (string \<rightharpoonup> int) option" where
  "download_json f s path = (case download f s path of Some (Usage d) \<Rightarrow> Some d | _ \<Rightarrow> None)"

definition download_lock_json :: "faults \<Rightarrow> store \<Rightarrow> string \<Rightarrow> lock_data option" where
  "download_lock_json f s path = (case download f s path of Some (Lock d) \<Rightarrow> Some d | _ \<Rightarrow> None)"

text \<open>
  \<open>FirebaseStorage.upload\<close> returns \<open>True\<close> only when the content was stored and the
  metadata patched; every exception is caught and becomes \<open>False\<close>.
\<close>

definition upload :: "faults \<Rightarrow> store \<Rightarrow> string \<Rightarrow> blob \<Rightarrow> bool \<times> store" where
  "upload f s path content =
     (case upload_outcome_of f [] path of
        Stored \<Rightarrow> (True, AList.update path content s)
      | Rejected \<Rightarrow> (False, s)
      | Stored_unpatched \<Rightarrow> (False, AList.update path content s))"

definition upload_csv :: "faults \<Rightarrow> store \<Rightarrow> string \<Rightarrow> task_row list \<Rightarrow> bool \<times> store" where
  "upload_csv f s path df = upload f s path (Csv df)"

text \<open>\<open>FirebaseStorage.delete\<close>: \<open>blob.delete()\<close> raises on a missing object.\<close>

definition delete_file :: "faults \<Rightarrow> store \<Rightarrow> string \<Rightarrow> bool \<times> store" where
  "delete_file f s path =
     (if delete_fails f [] path \<or> map_of s path = None then (False, s)
      else (True, AList.delete path s))"

section \<open>The assigner (workset\_auto\_assigner.py)\<close>

definition locks_dir :: string where
  "locks_dir = ''system/locks''"

definition usage_stats_path :: string where
  "usage_stats_path = ''system/workset_usage_stats.json''"

definition assignment_log_path :: string where
  "assignment_log_path = ''system/workset_assignment_log.csv''"

definition record_path :: "string \<Rightarrow> string" where
  "record_path username = ''annotators/'' @ username @ ''/'' @ username @ ''_record.csv''"

text \<open>\<open>d.get(k, 0)\<close> on a dictionary of counts.\<close>

definition get_count :: "(string \<rightharpoonup> int) \<Rightarrow> string \<Rightarrow> int" where
  "get_count d k = (case d k of None \<Rightarrow> 0 | Some c \<Rightarrow> c)"

text \<open>
  The storage functions never raise, so the \<open>except\<close> branches of the functions below
  (\<open>return True\<close> in \<open>_has_pending_worksets\<close>, \<open>return False\<close> in
  \<open>_has_completed_workset\<close>, \<open>return 999\<close> in \<open>_get_real_time_usage_count\<close>, \<dots>) are
  never entered on a failure of the store: the failure arrives as \<open>None\<close>, \<open>[]\<close> or
  \<open>False\<close> and the \<open>try\<close> body handles it like a missing object.
\<close>

definition has_pending_worksets :: "faults \<Rightarrow> store \<Rightarrow> string \<Rightarrow> bool" where
  "has_pending_worksets f s username =
     (case download_csv f s (record_path username) of
        Some record_df \<Rightarrow>
          (if record_df \<noteq> [] then
             filter (\<lambda>r. status r \<in> set [''in_progress'', ''not_started'']) record_df \<noteq> []
           else False)
      | None \<Rightarrow> False)"

definition has_completed_workset :: "faults \<Rightarrow> store \<Rightarrow> string \<Rightarrow> string \<Rightarrow> bool" where
  "has_completed_workset f s username workset_name =
     (case download_csv f s (record_path username) of
        Some record_df \<Rightarrow>
          (if record_df \<noteq> [] then
             filter (\<lambda>r. workset r = Some workset_name \<and> status r = ''completed'') record_df \<noteq> []
           else False)
      | None \<Rightarrow> False)"

text \<open>\<open>record_df['workset'].dropna().unique()\<close>; the order of the result is not used.\<close>

primrec dropna :: "'a option list \<Rightarrow> 'a list" where
  "dropna [] = []"
| "dropna (x # xs) = (case x of None \<Rightarrow> dropna xs | Some v \<Rightarrow> v # dropna xs)"

definition unique_worksets :: "task_row list \<Rightarrow> string list" where
  "unique_worksets record_df = remdups (dropna (map workset record_df))"

definition count_record :: "faults \<Rightarrow> store \<Rightarrow> string \<Rightarrow> (string \<rightharpoonup> int) \<Rightarrow> (string \<rightharpoonup> int)" where
  "count_record f s file_path usage_count =
     (if suffix ''_record.csv'' file_path then
        (case download_csv f s file_path of
           Some record_df \<Rightarrow>
             fold (\<lambda>w uc. uc(w \<mapsto> get_count uc w + 1)) (unique_worksets record_df) usage_count
         | None \<Rightarrow> usage_count)
      else usage_count)"

definition generate_usage_statistics :: "faults \<Rightarrow> store \<Rightarrow> (string \<rightharpoonup> int) \<times> store" where
  "generate_usage_statistics f s =
     (let annotator_files = list_files (during Listing f) s ''annotators/'' in
      if annotator_files = [] then
        (Map.empty, snd (upload (during Write f) s usage_stats_path (Usage Map.empty)))
      else
        (let usage_count = fold (count_record (during Read f) s) annotator_files Map.empty
         in (usage_count,
             snd (upload (during Write f) s usage_stats_path (Usage usage_count)))))"

definition get_usage_statistics :: "faults \<Rightarrow> store \<Rightarrow> (string \<rightharpoonup> int) \<times> store" where
  "get_usage_statistics f s =
     (case download_json (during Read f) s usage_stats_path of
        Some usage_data \<Rightarrow> (usage_data, s)
      | None \<Rightarrow> generate_usage_statistics (during Regenerate f) s)"

text \<open>
  \<open>for i in range(1, 101): workset_name = f"workset_{i:03d}"\<close>: the decimal digits of
  \<open>i\<close>, padded with zeros to three places.
\<close>

fun decimal :: "nat \<Rightarrow> string" where
  "decimal n = (if n < 10 then [''0123456789'' ! n]
                else decimal (n div 10) @ [''0123456789'' ! (n mod 10)])"

definition workset_name_of :: "nat \<Rightarrow> string" where
  "workset_name_of i =
     (let d = decimal i in ''workset_'' @ replicate (3 - length d) CHR ''0'' @ d)"

primrec first_available ::
  "faults \<Rightarrow> store \<Rightarrow> string \<Rightarrow> (string \<rightharpoonup> int) \<Rightarrow> nat list \<Rightarrow> string option" where
  "first_available f s username usage_stats [] = None"
| "first_available f s username usage_stats (i # rest) =
     (let workset_name = workset_name_of i;
          usage_count = get_count usage_stats workset_name
      in if usage_count < 3 then
           (if has_completed_workset (during (Candidate i) f) s username workset_name
            then first_available f s username usage_stats rest
            else Some workset_name)
         else first_available f s username usage_stats rest)"

definition find_available_workset :: "faults \<Rightarrow> store \<Rightarrow> string \<Rightarrow> string option \<times> store" where
  "find_available_workset f s username =
     (let (usage_stats, s1) = get_usage_statistics (during Ledger f) s
      in (first_available f s1 username usage_stats [1..<101], s1))"

text \<open>
  The lock protocol reads the clock and a random number. Each attempt receives them as a
  \<open>tick\<close>: the unique part of the competition id (\<open>{millis}_{random}\<close>) and the three
  \<open>datetime.now()\<close> stamps in ISO format, which Python compares as strings.
\<close>

record tick =
  nonce :: string
  competition_time :: string
  lock_time :: string
  lock_expiry :: string

definition competition_marker :: "string \<Rightarrow> string" where
  "competition_marker workset_name = ''competition_'' @ workset_name @ ''_''"

definition competition_path_of :: "string \<Rightarrow> string \<Rightarrow> string" where
  "competition_path_of workset_name cid =
     locks_dir @ ''/competition_'' @ workset_name @ ''_'' @ cid @ ''.json''"

definition lock_path_of :: "string \<Rightarrow> string" where
  "lock_path_of workset_name = locks_dir @ ''/'' @ workset_name @ ''_lock.json''"

definition competitors_of :: "faults \<Rightarrow> store \<Rightarrow> string \<Rightarrow> string list \<Rightarrow> lock_data list" where
  "competitors_of f s workset_name lock_files =
     concat (map (\<lambda>file_path.
       if sublist (competition_marker workset_name) file_path \<and> suffix ''.json'' file_path then
         (case download_lock_json f s file_path of
            Some comp_data \<Rightarrow> (if lock_status comp_data = ''competing'' then [comp_data] else [])
          | None \<Rightarrow> [])
       else []) lock_files)"

text \<open>
  \<open>competitors.sort(key=lambda x: x['timestamp'])\<close> is a stable sort, as \<open>sort_key\<close> is;
  \<open>winner = competitors[0]\<close>.
\<close>

definition is_winner :: "lock_data list \<Rightarrow> string \<Rightarrow> string \<Rightarrow> bool" where
  "is_winner competitors username cid =
     (if competitors = [] then False
      else (let winner = hd (sort_key timestamp competitors)
            in owner winner = username \<and> competition_id winner = cid))"

definition win_competition :: "faults \<Rightarrow> store \<Rightarrow> string \<Rightarrow> string \<Rightarrow> string \<Rightarrow> bool" where
  "win_competition f s workset_name username cid =
     is_winner (competitors_of (during Read f) s workset_name
                  (list_files (during Listing f) s (locks_dir @ ''/''))) username cid"

definition cleanup_competition_files :: "faults \<Rightarrow> store \<Rightarrow> string \<Rightarrow> string \<Rightarrow> store" where
  "cleanup_competition_files f s workset_name winner_competition_id =
     fold (\<lambda>file_path s'.
             if sublist (competition_marker workset_name) file_path
             then snd (delete_file (during Delete f) s' file_path) else s')
          (list_files (during Listing f) s (locks_dir @ ''/'')) s"

definition try_acquire_workset_lock ::
  "faults \<Rightarrow> tick \<Rightarrow> store \<Rightarrow> string \<Rightarrow> string \<Rightarrow> bool \<times> store" where
  "try_acquire_workset_lock f tk s workset_name username =
     (let cid = username @ ''_'' @ nonce tk;
          competition_path = competition_path_of workset_name cid;
          competition_data = \<lparr>lock_workset = workset_name, owner = username,
            competition_id = cid, timestamp = competition_time tk,
            lock_status = ''competing'', expires_at = None\<rparr>;
          (uploaded, s1) = upload (during Announce f) s competition_path (Lock competition_data)
      in if \<not> uploaded then (False, s1)
         else if win_competition (during Settle f) s1 workset_name username cid then
           (let lock_data = \<lparr>lock_workset = workset_name, owner = username,
                  competition_id = cid, timestamp = lock_time tk,
                  lock_status = ''locked'', expires_at = Some (lock_expiry tk)\<rparr>;
                (locked, s2) =
                  upload (during Confirm f) s1 (lock_path_of workset_name) (Lock lock_data)
            in if locked then
                 (True, cleanup_competition_files (during Cleanup f) s2 workset_name cid)
               else (False, snd (delete_file (during Withdraw f) s2 competition_path)))
         else (False, snd (delete_file (during Withdraw f) s1 competition_path)))"

definition release_workset_lock :: "faults \<Rightarrow> store \<Rightarrow> string \<Rightarrow> string \<Rightarrow> store" where
  "release_workset_lock f s workset_name username =
     (case download_lock_json (during Read f) s (lock_path_of workset_name) of
        Some current_lock \<Rightarrow>
          (if owner current_lock = username
           then snd (delete_file (during Delete f) s (lock_path_of workset_name)) else s)
      | None \<Rightarrow> s)"

definition is_workset_still_available :: "faults \<Rightarrow> store \<Rightarrow> string \<Rightarrow> bool \<times> store" where
  "is_workset_still_available f s workset_name =
     (let (current_usage, s1) = get_usage_statistics f s
      in (get_count current_usage workset_name < 3, s1))"

definition get_real_time_usage_count :: "faults \<Rightarrow> store \<Rightarrow> string \<Rightarrow> int" where
  "get_real_time_usage_count f s workset_name =
     fold (\<lambda>file_path usage_count.
             if suffix ''_record.csv'' file_path then
               (case download_csv (during Read f) s file_path of
                  Some record_df \<Rightarrow>
                    (if Some workset_name \<in> set (map workset record_df)
                     then usage_count + 1 else usage_count)
                | None \<Rightarrow> usage_count)
             else usage_count)
          (list_files (during Listing f) s ''annotators/'') 0"

definition update_usage_statistics_safely ::
  "faults \<Rightarrow> store \<Rightarrow> string \<Rightarrow> int \<Rightarrow> bool \<times> store" where
  "update_usage_statistics_safely f s workset_name expected_current_count =
     (let usage0 = (case download_json (during Read f) s usage_stats_path of
                      Some d \<Rightarrow> d | None \<Rightarrow> Map.empty);
          current_count_in_stats = get_count usage0 workset_name;
          (usage1, s1) =
            (if \<bar>current_count_in_stats - expected_current_count\<bar> > 1
             then generate_usage_statistics (during Regenerate f) s else (usage0, s));
          new_count = get_count usage1 workset_name + 1
      in if new_count > 3 then (False, s1)
         else upload (during Write f) s1 usage_stats_path
                (Usage (usage1(workset_name \<mapsto> new_count))))"

definition rollback_usage_statistics :: "faults \<Rightarrow> store \<Rightarrow> string \<Rightarrow> store" where
  "rollback_usage_statistics f s workset_name =
     (case download_json (during Read f) s usage_stats_path of
        Some usage \<Rightarrow>
          (case usage workset_name of
             Some c \<Rightarrow>
               (let usage1 = (if c - 1 \<le> 0 then usage(workset_name := None)
                              else usage(workset_name \<mapsto> c - 1))
                in snd (upload (during Write f) s usage_stats_path (Usage usage1)))
           | None \<Rightarrow> s)
      | None \<Rightarrow> s)"

definition add_workset_to_user_record :: "faults \<Rightarrow> store \<Rightarrow> string \<Rightarrow> string \<Rightarrow> bool \<times> store" where
  "add_workset_to_user_record f s username workset_name =
     (let record_df = (case download_csv (during Read f) s (record_path username) of
                         None \<Rightarrow> [] | Some df \<Rightarrow> df);
          new_task = \<lparr>workset = Some workset_name, status = ''not_started'',
                      auto_assigned = True\<rparr>
      in upload_csv (during Write f) s (record_path username) (record_df @ [new_task]))"

definition remove_workset_from_user_record :: "faults \<Rightarrow> store \<Rightarrow> string \<Rightarrow> string \<Rightarrow> store" where
  "remove_workset_from_user_record f s username workset_name =
     (case download_csv (during Read f) s (record_path username) of
        Some record_df \<Rightarrow>
          snd (upload_csv (during Write f) s (record_path username)
                 (filter (\<lambda>r. \<not> (workset r = Some workset_name \<and> auto_assigned r)) record_df))
      | None \<Rightarrow> s)"

definition log_assignment :: "faults \<Rightarrow> store \<Rightarrow> string \<Rightarrow> string \<Rightarrow> store" where
  "log_assignment f s username workset_name =
     (let log_df = (case download_log_csv (during Read f) s assignment_log_path of
                      None \<Rightarrow> [] | Some df \<Rightarrow> df)
      in snd (upload (during Write f) s assignment_log_path
                (Log (log_df @ [(username, workset_name)]))))"

subsection \<open>The materializer (workset\_utils.py)\<close>

text \<open>\<open>workset.replace("workset_", "")\<close>: every occurrence, from the left.\<close>

fun remove_workset_prefix :: "string \<Rightarrow> string" where
  "remove_workset_prefix [] = []"
| "remove_workset_prefix (c # cs) =
     (if prefix ''workset_'' (c # cs) then remove_workset_prefix (drop 7 cs)
      else c # remove_workset_prefix cs)"

definition create_workset_file :: "faults \<Rightarrow> store \<Rightarrow> string \<Rightarrow> string \<Rightarrow> bool \<times> store" where
  "create_workset_file f s username workset_name =
     (let workset_number = remove_workset_prefix workset_name;
          dataset_path = ''workset/dataset_'' @ workset_number @ ''.csv''
      in case download_dataset_csv (during Read f) s dataset_path of
           None \<Rightarrow> (False, s)
         | Some dataset_df \<Rightarrow>
             upload (during Write f) s
               (''coding_result/'' @ username @ ''/'' @ workset_name @ ''.csv'')
               (Workset_file (map (\<lambda>row. (row, ''N'')) dataset_df)))"

subsection \<open>Commit and the request loop\<close>

definition complete_workset_assignment ::
  "faults \<Rightarrow> store \<Rightarrow> string \<Rightarrow> string \<Rightarrow> bool \<times> store" where
  "complete_workset_assignment f s username workset_name =
     (if has_completed_workset (during Completed_check f) s username workset_name
      then (False, s)
      else
        (let current_usage = get_real_time_usage_count (during Count f) s workset_name in
         if current_usage \<ge> 3 then (False, s)
         else
           (let (updated, s1) =
                  update_usage_statistics_safely (during Increment f) s workset_name current_usage
            in
            if \<not> updated then (False, s1)
            else
              (let (added, s2) =
                     add_workset_to_user_record (during Append f) s1 username workset_name in
               if \<not> added then
                 (False, rollback_usage_statistics (during Rollback f) s2 workset_name)
               else
                 (let (created, s3) =
                        create_workset_file (during Materialize f) s2 username workset_name in
                  if \<not> created then
                    (False, remove_workset_from_user_record (during Remove f)
                              (rollback_usage_statistics (during Rollback f) s3 workset_name)
                              username workset_name)
                  else (True, log_assignment (during Log_entry f) s3 username workset_name))))))"

text \<open>
  \<open>for attempt in range(max_attempts)\<close>: the attempts are given as the list of their
  numbers, each with the \<open>tick\<close> of the attempt; the sleeps between attempts are not
  modelled. The lock is released in the \<open>finally\<close> clause on every path that acquired it.
\<close>

primrec request_attempts ::
  "faults \<Rightarrow> (nat \<times> tick) list \<Rightarrow> store \<Rightarrow> string \<Rightarrow> string option \<times> store" where
  "request_attempts f [] s username = (None, s)"
| "request_attempts f (a # rest) s username =
     (let g = during (Attempt (fst a)) f;
          (available_workset, s1) = find_available_workset (during Scan g) s username in
      case available_workset of
        None \<Rightarrow> (None, s1)
      | Some workset_name \<Rightarrow>
          (let (acquired, s2) =
                 try_acquire_workset_lock (during Acquire g) (snd a) s1 workset_name username in
           if acquired then
             (let (still, s3) = is_workset_still_available (during Recheck g) s2 workset_name in
              if still then
                (let (completed, s4) =
                       complete_workset_assignment (during Commit g) s3 username workset_name;
                     s5 = release_workset_lock (during Release g) s4 workset_name username
                 in if completed then (Some workset_name, s5)
                    else request_attempts f rest s5 username)
              else request_attempts f rest
                     (release_workset_lock (during Release g) s3 workset_name username) username)
           else request_attempts f rest s2 username))"

definition request_new_workset ::
  "faults \<Rightarrow> (nat \<Rightarrow> tick) \<Rightarrow> store \<Rightarrow> string \<Rightarrow> string option \<times> store" where
  "request_new_workset f clock s username =
     (if has_pending_worksets (during Pending_check f) s username then (None, s)
      else request_attempts f (map (\<lambda>attempt. (attempt, clock attempt)) [0..<5]) s username)"

section \<open>Notions used to state the properties\<close>

text \<open>
  A record file contains a workset id when the id stands in the \<open>workset\<close> column of at
  least one of its rows; \<open>records_with\<close> lists the record files under \<open>annotators/\<close> that
  contain the id, as a scan sees them through the storage client: the scan lists the
  folder at its step \<open>Listing\<close> and reads the records at its step \<open>Read\<close>.
\<close>

definition record_has_workset :: "faults \<Rightarrow> store \<Rightarrow> string \<Rightarrow> string \<Rightarrow> bool" where
  "record_has_workset f s file_path workset_name =
     (case download_csv f s file_path of
        Some record_df \<Rightarrow> Some workset_name \<in> set (map workset record_df)
      | None \<Rightarrow> False)"

definition records_with :: "faults \<Rightarrow> store \<Rightarrow> string \<Rightarrow> string list" where
  "records_with f s workset_name =
     filter (\<lambda>file_path. suffix ''_record.csv'' file_path \<and>
                         record_has_workset (during Read f) s file_path workset_name)
            (list_files (during Listing f) s ''annotators/'')"

text \<open>
  A workset number is eligible for a worker when the usage statistics, as
  \<open>_get_usage_statistics\<close> returns them to the scan, count fewer than three uses of its
  id and the worker has no completed row for it, as \<open>_has_completed_workset\<close> answers
  when the scan checks this number.
\<close>

definition eligible :: "faults \<Rightarrow> store \<Rightarrow> string \<Rightarrow> nat \<Rightarrow> bool" where
  "eligible f s username i =
     (get_count (fst (get_usage_statistics (during Ledger f) s)) (workset_name_of i) < 3 \<and>
      \<not> has_completed_workset (during (Candidate i) f) s username (workset_name_of i))"

text \<open>
  Two stores hold the same record files when they agree on every object under
  \<open>annotators/\<close>.
\<close>

definition same_records :: "store \<Rightarrow> store \<Rightarrow> bool" where
  "same_records s s' = (\<forall>p. prefix ''annotators/'' p \<longrightarrow> map_of s' p = map_of s p)"

text \<open>
  The entry that \<open>_win_competition\<close> declares the winner: the first, in the order of
  the listing, of the competition entries with the least time stamp.
\<close>

definition first_earliest :: "lock_data list \<Rightarrow> lock_data" where
  "first_earliest competitors =
     hd (filter (\<lambda>e. timestamp e = Min (timestamp ` set competitors)) competitors)"

text \<open>
  The order of the specification: earlier time stamp first, ties broken by the
  competition id in lexicographic order; \<open>spec_is_winner\<close> says that the requester's own
  entry is a minimum of the list under this order.
\<close>

definition spec_before :: "lock_data \<Rightarrow> lock_data \<Rightarrow> bool" where
  "spec_before a b =
     (timestamp a < timestamp b \<or> (timestamp a = timestamp b \<and> competition_id a \<le> competition_id b))"

definition spec_is_winner :: "lock_data list \<Rightarrow> string \<Rightarrow> string \<Rightarrow> bool" where
  "spec_is_winner competitors username cid =
     list_ex (\<lambda>e. owner e = username \<and> competition_id e = cid \<and>
                   list_all (spec_before e) competitors) competitors"

text \<open>
  The count of a workset id in the stored usage statistics, as \<open>d.get(id, 0)\<close> reads it;
  an absent statistics object counts as empty.
\<close>

definition ledger_count :: "faults \<Rightarrow> store \<Rightarrow> string \<Rightarrow> int" where
  "ledger_count f s workset_name =
     get_count (case download_json f s usage_stats_path of Some d \<Rightarrow> d | None \<Rightarrow> Map.empty)
       workset_name"

text \<open>
  The count that \<open>_update_usage_statistics_safely\<close> increments: the stored count as the
  function reads it when that is within 1 of the expected count, and the count of the
  statistics that the function regenerates otherwise.
\<close>

definition observed_count :: "faults \<Rightarrow> store \<Rightarrow> string \<Rightarrow> int \<Rightarrow> int" where
  "observed_count f s workset_name expected_current_count =
     (if \<bar>ledger_count (during Read f) s workset_name - expected_current_count\<bar> > 1
      then get_count (fst (generate_usage_statistics (during Regenerate f) s)) workset_name
      else ledger_count (during Read f) s workset_name)"

text \<open>
  The row that \<open>_add_workset_to_user_record\<close> appends, the rows of a worker's record as
  the client reads them (none when the read gives nothing), and the rows that
  \<open>_remove_workset_from_user_record\<close> keeps.
\<close>

definition new_task :: "string \<Rightarrow> task_row" where
  "new_task workset_name =
     \<lparr>workset = Some workset_name, status = ''not_started'', auto_assigned = True\<rparr>"

definition rows_of :: "faults \<Rightarrow> store \<Rightarrow> string \<Rightarrow> task_row list" where
  "rows_of f s username =
     (case download_csv f s (record_path username) of None \<Rightarrow> [] | Some df \<Rightarrow> df)"

definition kept_on_rollback :: "string \<Rightarrow> task_row \<Rightarrow> bool" where
  "kept_on_rollback workset_name r = (\<not> (workset r = Some workset_name \<and> auto_assigned r))"

text \<open>
  The workers whose task record holds a row for a workset id, the storage clients that
  list and read the record files without failure at every step, and a sequence of requests, each with
  its own behaviour of the storage client, clock and requesting worker. The requests of a
  sequence run one after the other: the store requests of two calls are not interleaved.
\<close>

definition holders :: "store \<Rightarrow> string \<Rightarrow> string set" where
  "holders s workset_name = {u. record_has_workset reliable s (record_path u) workset_name}"

definition reads_records :: "faults \<Rightarrow> bool" where
  "reads_records f =
     (\<forall>site. \<not> list_fails f site ''annotators/'' \<and>
        (\<forall>p. prefix ''annotators/'' p \<longrightarrow> \<not> download_fails f site p))"

primrec run_requests :: "(faults \<times> (nat \<Rightarrow> tick) \<times> string) list \<Rightarrow> store \<Rightarrow> store" where
  "run_requests [] s = s"
| "run_requests (r # rs) s =
     run_requests rs (snd (request_new_workset (fst r) (fst (snd r)) s (snd (snd r))))"

text \<open>
  A store in which every record file under \<open>annotators/\<close> is the task record of a
  worker, at the path the program gives it, and no object name occurs twice.
\<close>

definition records_are_workers :: "store \<Rightarrow> bool" where
  "records_are_workers s =
     (distinct (map fst s) \<and>
      (\<forall>p\<in>set (map fst s). prefix ''annotators/'' p \<and> suffix ''_record.csv'' p \<longrightarrow>
         (\<exists>u. p = record_path u)))"

text \<open>
  A storage client that serves every request on the objects under \<open>system/locks/\<close>, at
  every step.
\<close>

definition locks_reliable :: "faults \<Rightarrow> bool" where
  "locks_reliable f =
     (\<forall>site p. prefix ''system/locks/'' p \<longrightarrow>
        \<not> list_fails f site p \<and> \<not> download_fails f site p \<and>
        upload_outcome_of f site p = Stored \<and> \<not> delete_fails f site p)"

section \<open>Example stores\<close>

definition two_holders :: store where
  "two_holders =
     [(''annotators/ann/ann_record.csv'',
         Csv [\<lparr>workset = Some ''workset_001'', status = ''completed'', auto_assigned = True\<rparr>,
              \<lparr>workset = Some ''workset_001'', status = ''in_progress'', auto_assigned = False\<rparr>]),
      (''annotators/bob/bob_record.csv'',
         Csv [\<lparr>workset = Some ''workset_001'', status = ''not_started'', auto_assigned = True\<rparr>])]"

definition ann_done_001 :: store where
  "ann_done_001 =
     [(''annotators/ann/ann_record.csv'',
         Csv [\<lparr>workset = Some ''workset_001'', status = ''completed'', auto_assigned = True\<rparr>]),
      (''system/workset_usage_stats.json'', Usage [''workset_001'' \<mapsto> 1])]"

text \<open>
  Two bids for \<open>workset_001\<close> with the same time stamp, listed in the lexicographic
  order of their object names (\<open>-\<close> sorts before \<open>.\<close>), in which a storage service
  lists them.
\<close>

definition tied_bids :: store where
  "tied_bids =
     [(''system/locks/competition_workset_001_al_1_10000-x_1_10000.json'',
         Lock \<lparr>lock_workset = ''workset_001'', owner = ''al_1_10000-x'',
               competition_id = ''al_1_10000-x_1_10000'', timestamp = ''2025-01-01T00:00:00'',
               lock_status = ''competing'', expires_at = None\<rparr>),
      (''system/locks/competition_workset_001_al_1_10000.json'',
         Lock \<lparr>lock_workset = ''workset_001'', owner = ''al'',
               competition_id = ''al_1_10000'', timestamp = ''2025-01-01T00:00:00'',
               lock_status = ''competing'', expires_at = None\<rparr>)]"

definition ledger_full :: store where
  "ledger_full = [(''system/workset_usage_stats.json'', Usage [''workset_001'' \<mapsto> 3])]"

text \<open>
  Three workers hold \<open>workset_001\<close> and there is no statistics object; a storage client
  whose listing of \<open>annotators/\<close> fails at every step; a clock; and the store as the request of a
  fourth worker, \<open>dan\<close>, leaves it after its scan and after it has taken the lock.
\<close>

definition three_holders :: store where
  "three_holders =
     [(''annotators/ann/ann_record.csv'',
         Csv [\<lparr>workset = Some ''workset_001'', status = ''completed'', auto_assigned = True\<rparr>]),
      (''annotators/bob/bob_record.csv'',
         Csv [\<lparr>workset = Some ''workset_001'', status = ''completed'', auto_assigned = True\<rparr>]),
      (''annotators/cat/cat_record.csv'',
         Csv [\<lparr>workset = Some ''workset_001'', status = ''in_progress'', auto_assigned = True\<rparr>]),
      (''workset/dataset_001.csv'', Dataset [''row 1'', ''row 2''])]"

definition listing_down :: faults where
  "listing_down = reliable\<lparr>list_fails := (\<lambda>site folder. folder = ''annotators/'')\<rparr>"

definition fixed_clock :: "nat \<Rightarrow> tick" where
  "fixed_clock attempt = \<lparr>nonce = ''1700000000000_10000'', competition_time = ''2025-01-01T00:00:00'',
     lock_time = ''2025-01-01T00:00:01'', lock_expiry = ''2025-01-01T00:02:01''\<rparr>"

definition three_holders_scanned :: store where
  "three_holders_scanned = three_holders @ [(''system/workset_usage_stats.json'', Usage Map.empty)]"

definition three_holders_locked :: store where
  "three_holders_locked = three_holders_scanned @
     [(''system/locks/workset_001_lock.json'',
       Lock \<lparr>lock_workset = ''workset_001'', owner = ''dan'',
         competition_id = ''dan_1700000000000_10000'',
         timestamp = ''2025-01-01T00:00:01'', lock_status = ''locked'',
         expires_at = Some ''2025-01-01T00:02:01''\<rparr>)]"

definition dan_bid :: lock_data where
  "dan_bid = \<lparr>lock_workset = ''workset_001'', owner = ''dan'',
            competition_id = ''dan_1700000000000_10000'', timestamp = ''2025-01-01T00:00:00'',
            lock_status = ''competing'', expires_at = None\<rparr>"

definition dan_bid_path :: string where
  "dan_bid_path = ''system/locks/competition_workset_001_dan_1700000000000_10000.json''"

definition dan_lock :: lock_data where
  "dan_lock = \<lparr>lock_workset = ''workset_001'', owner = ''dan'',
         competition_id = ''dan_1700000000000_10000'',
         timestamp = ''2025-01-01T00:00:01'', lock_status = ''locked'',
         expires_at = Some ''2025-01-01T00:02:01''\<rparr>"

text \<open>
  A store with the task record of \<open>dan\<close> alone, whose rows are a parameter, and the
  dataset of \<open>workset_001\<close>; a storage client with which every read of that record
  fails while every other request succeeds; and the store as a request of \<open>dan\<close> leaves it
  after its scan and after it has taken the lock.
\<close>

definition dan_alone :: "task_row list \<Rightarrow> store" where
  "dan_alone rows =
     [(''annotators/dan/dan_record.csv'', Csv rows),
      (''workset/dataset_001.csv'', Dataset [''row 1'', ''row 2''])]"

definition dan_record_down :: faults where
  "dan_record_down =
     reliable\<lparr>download_fails := (\<lambda>site path. path = ''annotators/dan/dan_record.csv'')\<rparr>"

definition dan_alone_scanned :: "task_row list \<Rightarrow> store" where
  "dan_alone_scanned rows = dan_alone rows @ [(''system/workset_usage_stats.json'', Usage Map.empty)]"

definition dan_alone_locked :: "task_row list \<Rightarrow> store" where
  "dan_alone_locked rows =
     dan_alone_scanned rows @ [(''system/locks/workset_001_lock.json'', Lock dan_lock)]"

text \<open>
  Two workers hold \<open>workset_001\<close>, there is no dataset object, and the statistics
  object and the record of a third worker, \<open>cat\<close>, are parameters.
\<close>

definition drift_store :: "(string \<rightharpoonup> int) \<Rightarrow> task_row list option \<Rightarrow> store" where
  "drift_store usage cat_rows =
     [(''annotators/ann/ann_record.csv'',
         Csv [\<lparr>workset = Some ''workset_001'', status = ''completed'', auto_assigned = True\<rparr>]),
      (''annotators/bob/bob_record.csv'',
         Csv [\<lparr>workset = Some ''workset_001'', status = ''completed'', auto_assigned = True\<rparr>]),
      (''system/workset_usage_stats.json'', Usage usage)] @
     (case cat_rows of None \<Rightarrow> [] | Some rows \<Rightarrow> [(''annotators/cat/cat_record.csv'', Csv rows)])"

text \<open>
  A storage client that serves every request, except that the upload of the worker's
  record in commit step (d) and the upload of the statistics in the rollback have the
  given outcomes.
\<close>

definition commit_faults :: "upload_outcome \<Rightarrow> upload_outcome \<Rightarrow> faults" where
  "commit_faults append_outcome rollback_outcome =
     reliable\<lparr>upload_outcome_of :=
       (\<lambda>site path. if site = [Append, Write] then append_outcome
                     else if site = [Rollback, Write] then rollback_outcome else Stored)\<rparr>"

section \<open>Counting by scan\<close>

lemma set_dropna: "set (dropna xs) = {v. Some v \<in> set xs}"
  by (induction xs) (auto split: option.splits)

lemma set_unique_worksets:
  "set (unique_worksets df) = {w. Some w \<in> set (map workset df)}"
  by (simp add: unique_worksets_def set_dropna)

lemma distinct_unique_worksets: "distinct (unique_worksets df)"
  by (simp add: unique_worksets_def)

lemma get_count_upd:
  "get_count (d(k \<mapsto> c)) k' = (if k' = k then c else get_count d k')"
  by (simp add: get_count_def)

lemma get_count_empty: "get_count Map.empty k = 0"
  by (simp add: get_count_def)

lemma fold_bump_count:
  "distinct ws \<Longrightarrow>
   get_count (fold (\<lambda>w uc. uc(w \<mapsto> get_count uc w + 1)) ws uc) k =
   get_count uc k + (if k \<in> set ws then 1 else 0)"
  by (induction ws arbitrary: uc) (auto simp: get_count_upd)

lemma get_count_count_record:
  "get_count (count_record f s p uc) k =
   get_count uc k + (if suffix ''_record.csv'' p \<and> record_has_workset f s p k then 1 else 0)"
  by (auto simp: count_record_def record_has_workset_def fold_bump_count
      distinct_unique_worksets set_unique_worksets split: option.splits)

lemma get_count_fold_count_record:
  "get_count (fold (count_record f s) ps uc) k =
   get_count uc k +
   int (length (filter (\<lambda>p. suffix ''_record.csv'' p \<and> record_has_workset f s p k) ps))"
  by (induction ps arbitrary: uc) (simp_all add: get_count_count_record)

lemma get_count_generate:
  "get_count (fst (generate_usage_statistics f s)) k = int (length (records_with f s k))"
  by (simp add: generate_usage_statistics_def Let_def records_with_def
      get_count_fold_count_record get_count_empty)

lemma real_time_fold:
  "fold (\<lambda>file_path usage_count.
             if suffix ''_record.csv'' file_path then
               (case download_csv f s file_path of
                  Some record_df \<Rightarrow>
                    (if Some k \<in> set (map workset record_df)
                     then usage_count + 1 else usage_count)
                | None \<Rightarrow> usage_count)
             else usage_count) ps (n::int) =
   n + int (length (filter (\<lambda>p. suffix ''_record.csv'' p \<and> record_has_workset f s p k) ps))"
  by (induction ps arbitrary: n) (auto simp: record_has_workset_def split: option.splits)

lemma get_real_time_usage_count_eq:
  "get_real_time_usage_count f s k = int (length (records_with f s k))"
  unfolding get_real_time_usage_count_def records_with_def by (simp only: real_time_fold)

text \<open>
  C7: \<open>_generate_usage_statistics\<close> counts a record file once for a workset id, however
  many of its rows carry the id and whatever their status: on a store whose requests
  succeed, the regenerated count of an id is the number of record files under
  \<open>annotators/\<close> in which the id appears at least once.
\<close>

theorem regenerate_counts_each_record_once:
  "get_count (fst (generate_usage_statistics reliable s)) workset_name =
   int (length (records_with reliable s workset_name))"
  by (rule get_count_generate)

section \<open>The store under its operations\<close>

lemma during_simps [simp]:
  "list_fails (during l f) site = list_fails f (l # site)"
  "download_fails (during l f) site = download_fails f (l # site)"
  "upload_outcome_of (during l f) site = upload_outcome_of f (l # site)"
  "delete_fails (during l f) site = delete_fails f (l # site)"
  by (simp_all add: during_def)

lemma during_reliable [simp]: "during l reliable = reliable"
  by (simp add: during_def reliable_def)

lemma reliable_simps [simp]:
  "list_fails reliable site p = False"
  "download_fails reliable site p = False"
  "upload_outcome_of reliable site p = Stored"
  "delete_fails reliable site p = False"
  by (simp_all add: reliable_def)

lemma download_reliable [simp]: "download reliable s p = map_of s p"
  by (simp add: download_def blob_download_def reliable_def)

lemma upload_reliable [simp]: "upload reliable s p b = (True, AList.update p b s)"
  by (simp add: upload_def reliable_def)

lemma list_files_annotators:
  "list_files f s ''annotators/'' =
   (if list_fails f [] ''annotators/'' then []
    else filter (\<lambda>name. \<not> suffix ''/'' name)
           (sort (filter (prefix ''annotators/'') (map fst s))))"
  by (simp add: list_files_def bucket_list_blobs_def suffix_to_prefix)

lemma list_files_reliable:
  "list_files reliable s ''annotators/'' =
   filter (\<lambda>name. \<not> suffix ''/'' name) (sort (filter (prefix ''annotators/'') (map fst s)))"
  by (simp add: list_files_annotators)

lemma map_of_upload:
  "map_of (snd (upload f s k b)) p =
   (if p = k \<and> upload_outcome_of f [] k \<noteq> Rejected then Some b else map_of s p)"
  by (auto simp: upload_def update_conv' split: upload_outcome.splits)

lemma map_of_delete_file:
  "map_of (snd (delete_file f s k)) p =
   (if p = k \<and> \<not> delete_fails f [] k then None else map_of s p)"
  by (auto simp: delete_file_def delete_conv')

section \<open>Operations that leave the record files alone\<close>

lemma same_records_refl [simp]: "same_records s s"
  by (simp add: same_records_def)

lemma same_records_trans: "same_records s s' \<Longrightarrow> same_records s' s'' \<Longrightarrow> same_records s s''"
  by (simp add: same_records_def)

lemma same_records_upload:
  "\<not> prefix ''annotators/'' k \<Longrightarrow> same_records s (snd (upload f s k b))"
  by (auto simp: same_records_def map_of_upload)

lemma same_records_delete:
  "\<not> prefix ''annotators/'' k \<Longrightarrow> same_records s (snd (delete_file f s k))"
  by (auto simp: same_records_def map_of_delete_file)

lemma not_annotators [simp]:
  "\<not> prefix ''annotators/'' usage_stats_path"
  "\<not> prefix ''annotators/'' assignment_log_path"
  "\<not> prefix ''annotators/'' (lock_path_of k)"
  "\<not> prefix ''annotators/'' (competition_path_of k c)"
  "\<not> prefix ''annotators/'' (locks_dir @ rest)"
  "\<not> prefix ''annotators/'' (''coding_result/'' @ rest)"
  by (simp_all add: usage_stats_path_def assignment_log_path_def lock_path_of_def locks_dir_def
      competition_path_of_def)

lemma record_path_annotators [simp]: "prefix ''annotators/'' (record_path u)"
  by (simp add: record_path_def)

lemma same_records_generate: "same_records s (snd (generate_usage_statistics f s))"
  by (simp add: generate_usage_statistics_def Let_def same_records_upload)

lemma same_records_get_usage: "same_records s (snd (get_usage_statistics f s))"
  by (simp add: get_usage_statistics_def same_records_generate split: option.splits)

lemma same_records_still_available: "same_records s (snd (is_workset_still_available f s k))"
  by (simp add: is_workset_still_available_def split_beta same_records_get_usage)

lemma same_records_find_available: "same_records s (snd (find_available_workset f s u))"
  by (simp add: find_available_workset_def split_beta same_records_get_usage)

lemma same_records_update_safely:
  "same_records s (snd (update_usage_statistics_safely f s k e))"
proof -
  have "same_records s s1 \<Longrightarrow>
        same_records s (snd (if c then (False, s1) else upload g s1 usage_stats_path b))"
    for s1 c b g
    using same_records_trans [OF _ same_records_upload [of usage_stats_path s1 g b]] by simp
  then show ?thesis
    unfolding update_usage_statistics_safely_def Let_def split_beta
    by (simp add: same_records_generate)
qed

lemma same_records_rollback: "same_records s (rollback_usage_statistics f s k)"
  by (simp add: rollback_usage_statistics_def Let_def same_records_upload split: option.splits)

lemma same_records_log: "same_records s (log_assignment f s u k)"
  by (simp add: log_assignment_def Let_def same_records_upload)

lemma same_records_create: "same_records s (snd (create_workset_file f s u k))"
  by (simp add: create_workset_file_def Let_def same_records_upload split: option.splits)

lemma same_records_release: "same_records s (release_workset_lock f s k u)"
  by (simp add: release_workset_lock_def same_records_delete split: option.splits)

lemma list_files_locks_prefix:
  "p \<in> set (list_files f s (locks_dir @ ''/'')) \<Longrightarrow> prefix ''system/locks/'' p"
  by (auto simp: list_files_def bucket_list_blobs_def locks_dir_def suffix_to_prefix Let_def
      split: if_splits)

lemma same_records_fold_delete:
  "\<forall>p\<in>set ps. \<not> prefix ''annotators/'' p \<Longrightarrow>
   same_records s (fold (\<lambda>p s'. if C p then snd (delete_file f s' p) else s') ps s)"
proof (induction ps arbitrary: s)
  case Nil
  then show ?case by simp
next
  case (Cons p ps)
  have "same_records s (if C p then snd (delete_file f s p) else s)"
    using Cons.prems by (simp add: same_records_delete)
  moreover have "same_records (if C p then snd (delete_file f s p) else s)
      (fold (\<lambda>p s'. if C p then snd (delete_file f s' p) else s') ps
         (if C p then snd (delete_file f s p) else s))"
    using Cons.prems by (intro Cons.IH) simp
  ultimately have "same_records s
      (fold (\<lambda>p s'. if C p then snd (delete_file f s' p) else s') ps
         (if C p then snd (delete_file f s p) else s))"
    by (rule same_records_trans)
  then show ?case by simp
qed

lemma same_records_cleanup: "same_records s (cleanup_competition_files f s k c)"
proof -
  have "\<forall>p\<in>set (list_files (during Listing f) s (locks_dir @ ''/'')). \<not> prefix ''annotators/'' p"
  proof
    fix p assume "p \<in> set (list_files (during Listing f) s (locks_dir @ ''/''))"
    then have "prefix ''system/locks/'' p" by (rule list_files_locks_prefix)
    then show "\<not> prefix ''annotators/'' p" by (auto simp: prefix_def)
  qed
  then show ?thesis
    unfolding cleanup_competition_files_def by (rule same_records_fold_delete)
qed

lemma same_records_try_acquire:
  "same_records s (snd (try_acquire_workset_lock f tk s k u))"
proof -
  define cp where "cp = competition_path_of k (u @ ''_'' @ nonce tk)"
  have 1: "same_records s (snd (upload g s cp b))" for b g
    unfolding cp_def by (rule same_records_upload) simp
  have 2: "same_records s1 (snd (upload g s1 (lock_path_of k) b))" for s1 b g
    by (rule same_records_upload) simp
  have 3: "same_records s1 (snd (delete_file g s1 cp))" for s1 g
    unfolding cp_def by (rule same_records_delete) simp
  note t = same_records_trans
  show ?thesis
    unfolding try_acquire_workset_lock_def Let_def split_beta cp_def [symmetric]
    by (simp add: 1 t [OF 1 3] t [OF 1 t [OF 2 3]] t [OF 1 t [OF 2 same_records_cleanup]])
qed

section \<open>Incrementing the usage statistics\<close>

text \<open>
  C5: \<open>_update_usage_statistics_safely\<close> returns failure whenever the count it observes
  plus one exceeds 3, and then writes no incremented value. The observed count is the
  stored one, as the function reads it, when it is within 1 of the expected count, and
  then the store is left as it was; otherwise it is the count of the statistics that the
  function regenerates, and then the only write is the one of the regeneration.
\<close>

theorem increment_refuses_above_cap:
  "(\<bar>ledger_count (during Read f) s workset_name - expected\<bar> \<le> 1 \<and>
    ledger_count (during Read f) s workset_name + 1 > 3 \<longrightarrow>
      update_usage_statistics_safely f s workset_name expected = (False, s)) \<and>
   (\<bar>ledger_count (during Read f) s workset_name - expected\<bar> > 1 \<and>
    get_count (fst (generate_usage_statistics (during Regenerate f) s)) workset_name + 1 > 3 \<longrightarrow>
      update_usage_statistics_safely f s workset_name expected =
        (False, snd (generate_usage_statistics (during Regenerate f) s)))"
  by (simp add: update_usage_statistics_safely_def ledger_count_def Let_def split_beta)

theorem increment_refuses_above_cap_witness:
  "\<bar>ledger_count reliable ledger_full ''workset_001'' - 3\<bar> \<le> 1 \<and>
   ledger_count reliable ledger_full ''workset_001'' + 1 > 3 \<and>
   update_usage_statistics_safely reliable ledger_full ''workset_001'' 3 = (False, ledger_full)"
proof -
  have c: "ledger_count reliable ledger_full ''workset_001'' = 3"
    by (simp add: ledger_count_def ledger_full_def download_json_def usage_stats_path_def
        get_count_def)
  show ?thesis
    using increment_refuses_above_cap [of reliable ledger_full "''workset_001''" 3]
    by (simp add: c)
qed

section \<open>The competition\<close>

lemma hd_sort_key:
  assumes "xs \<noteq> []"
  shows "hd (sort_key f xs) = hd (filter (\<lambda>y. f y = Min (f ` set xs)) xs)"
proof -
  have "sort_key f xs \<noteq> []" using assms by (metis length_sort length_0_conv)
  then obtain y ys where ys: "sort_key f xs = y # ys" by (cases "sort_key f xs") auto
  have "sorted (map f (sort_key f xs))" by simp
  then have le: "\<forall>z\<in>set ys. f y \<le> f z" unfolding ys by simp
  have "set (y # ys) = set xs" using ys by (metis set_sort)
  then have "f y = Min (f ` set xs)"
    using le by (intro Min_eqI [symmetric]) auto
  then have "hd (filter (\<lambda>z. f z = Min (f ` set xs)) (sort_key f xs)) = y"
    unfolding ys by simp
  then have "hd (filter (\<lambda>z. f z = Min (f ` set xs)) xs) = y"
    by (simp only: sort_key_stable)
  then show ?thesis by (simp add: ys)
qed

text \<open>
  C3 (as amended): the requester is declared the winner exactly when the competition
  entries are not empty and the first listed entry among those with the least time stamp
  carries the requester's owner name and competition id. Entries with equal time stamps
  are not compared by competition id: the sort is by time stamp alone and stable.
\<close>

theorem win_competition_first_listed_earliest:
  "win_competition f s workset_name username cid =
     (let competitors = competitors_of (during Read f) s workset_name
                          (list_files (during Listing f) s (locks_dir @ ''/''))
      in competitors \<noteq> [] \<and> owner (first_earliest competitors) = username \<and>
         competition_id (first_earliest competitors) = cid)"
  by (simp add: win_competition_def is_winner_def Let_def first_earliest_def hd_sort_key)

lemma competitors_tied:
  "competitors_of reliable tied_bids ''workset_001'' (list_files reliable tied_bids (locks_dir @ ''/'')) =
     [\<lparr>lock_workset = ''workset_001'', owner = ''al_1_10000-x'',
               competition_id = ''al_1_10000-x_1_10000'', timestamp = ''2025-01-01T00:00:00'',
               lock_status = ''competing'', expires_at = None\<rparr>,
      \<lparr>lock_workset = ''workset_001'', owner = ''al'',
               competition_id = ''al_1_10000'', timestamp = ''2025-01-01T00:00:00'',
               lock_status = ''competing'', expires_at = None\<rparr>]"
  by (simp add: competitors_of_def list_files_def bucket_list_blobs_def reliable_def locks_dir_def
      tied_bids_def suffix_to_prefix competition_marker_def sublist_code download_lock_json_def
      download_def blob_download_def)

text \<open>
  C3 as stated fails: with two bids of equal time stamp the requester \<open>al\<close>, whose
  competition id is the smaller one, is not declared the winner.
\<close>

theorem win_competition_tie_counterexample:
  "\<not> win_competition reliable tied_bids ''workset_001'' ''al'' ''al_1_10000'' \<and>
   spec_is_winner
     (competitors_of reliable tied_bids ''workset_001'' (list_files reliable tied_bids (locks_dir @ ''/'')))
     ''al'' ''al_1_10000''"
  unfolding win_competition_def during_reliable competitors_tied
  by (simp add: is_winner_def spec_is_winner_def spec_before_def)

theorem win_competition_first_listed_earliest_witness:
  "win_competition reliable tied_bids ''workset_001'' ''al_1_10000-x'' ''al_1_10000-x_1_10000''"
  using win_competition_first_listed_earliest [of reliable tied_bids "''workset_001''"
      "''al_1_10000-x''" "''al_1_10000-x_1_10000''"]
  unfolding during_reliable competitors_tied by (simp add: first_earliest_def)

section \<open>Scanning for a candidate\<close>

lemma record_path_neq_usage [simp]: "record_path u \<noteq> usage_stats_path"
  by (simp add: record_path_def usage_stats_path_def)

lemma map_of_generate:
  "p \<noteq> usage_stats_path \<Longrightarrow> map_of (snd (generate_usage_statistics f s)) p = map_of s p"
  by (simp add: generate_usage_statistics_def Let_def map_of_upload)

lemma map_of_get_usage:
  "p \<noteq> usage_stats_path \<Longrightarrow> map_of (snd (get_usage_statistics f s)) p = map_of s p"
  by (simp add: get_usage_statistics_def map_of_generate split: option.splits)

lemma download_csv_cong:
  "map_of s' p = map_of s p \<Longrightarrow> download_csv f s' p = download_csv f s p"
  by (simp add: download_csv_def download_def blob_download_def)

lemma has_completed_cong:
  "map_of s' (record_path u) = map_of s (record_path u) \<Longrightarrow>
   has_completed_workset f s' u k = has_completed_workset f s u k"
  using download_csv_cong [of s' "record_path u" s f] by (simp add: has_completed_workset_def)

lemma has_pending_cong:
  "map_of s' (record_path u) = map_of s (record_path u) \<Longrightarrow>
   has_pending_worksets f s' u = has_pending_worksets f s u"
  using download_csv_cong [of s' "record_path u" s f] by (simp add: has_pending_worksets_def)

lemma first_available_find:
  "first_available f s u us is =
   map_option workset_name_of
     (List.find (\<lambda>i. get_count us (workset_name_of i) < 3 \<and>
                      \<not> has_completed_workset (during (Candidate i) f) s u (workset_name_of i)) is)"
  by (induction "is") (auto simp: Let_def)

lemma fst_find_available:
  "fst (find_available_workset f s u) =
   map_option workset_name_of (List.find (eligible f s u) [1..<101])"
proof -
  define g where "g = during Ledger f"
  have e: "(\<lambda>i. get_count (fst (get_usage_statistics g s)) (workset_name_of i) < 3 \<and>
             \<not> has_completed_workset (during (Candidate i) f) (snd (get_usage_statistics g s)) u
                 (workset_name_of i)) =
           eligible f s u"
  proof (rule ext)
    fix i
    have "has_completed_workset (during (Candidate i) f) (snd (get_usage_statistics g s)) u
            (workset_name_of i) =
          has_completed_workset (during (Candidate i) f) s u (workset_name_of i)"
      by (rule has_completed_cong) (simp add: map_of_get_usage)
    then show "(get_count (fst (get_usage_statistics g s)) (workset_name_of i) < 3 \<and>
             \<not> has_completed_workset (during (Candidate i) f) (snd (get_usage_statistics g s)) u
                 (workset_name_of i)) =
           eligible f s u i"
      by (simp add: eligible_def g_def)
  qed
  show ?thesis
    by (simp only: find_available_workset_def split_beta Let_def fst_conv first_available_find
        g_def [symmetric] e)
qed

text \<open>
  C8: \<open>_find_available_workset\<close> walks the numbers 1 to 100 in ascending order and
  returns the id of the first eligible one: whatever the store holds, an id it returns
  belongs to the smallest eligible number, and it returns nothing exactly when no number
  from 1 to 100 is eligible.
\<close>

theorem find_available_workset_first_eligible:
  "case fst (find_available_workset f s username) of
     Some workset_name \<Rightarrow>
       \<exists>i. 1 \<le> i \<and> i \<le> 100 \<and> workset_name = workset_name_of i \<and> eligible f s username i \<and>
           (\<forall>j. 1 \<le> j \<and> j < i \<longrightarrow> \<not> eligible f s username j)
   | None \<Rightarrow> \<forall>i. 1 \<le> i \<and> i \<le> 100 \<longrightarrow> \<not> eligible f s username i"
proof (cases "List.find (eligible f s username) [1..<101]")
  case None
  then have "\<forall>i. 1 \<le> i \<and> i \<le> 100 \<longrightarrow> \<not> eligible f s username i"
    by (auto simp: find_None_iff)
  with None show ?thesis by (simp add: fst_find_available)
next
  case (Some i)
  then obtain n where n: "n < 100" "eligible f s username ([1..<101] ! n)" "i = [1..<101] ! n"
    "\<forall>m<n. \<not> eligible f s username ([1..<101] ! m)"
    by (auto simp: find_Some_iff)
  have i: "i = 1 + n" using n(1,3) by simp
  have "\<forall>j. 1 \<le> j \<and> j < i \<longrightarrow> \<not> eligible f s username j"
  proof (intro allI impI)
    fix j assume j: "1 \<le> j \<and> j < i"
    then have "j - 1 < n" using i by arith
    with n(4) have "\<not> eligible f s username ([1..<101] ! (j - 1))" by blast
    moreover have "[1..<101] ! (j - 1) = j" using j i n(1) by simp
    ultimately show "\<not> eligible f s username j" by simp
  qed
  moreover have "1 \<le> i \<and> i \<le> 100 \<and> eligible f s username i" using n i by simp
  ultimately show ?thesis using Some by (auto simp: fst_find_available)
qed

lemma workset_name_of_1: "workset_name_of (Suc 0) = ''workset_001''"
  by (simp add: workset_name_of_def eval_nat_numeral)

lemma workset_name_of_2: "workset_name_of (Suc (Suc 0)) = ''workset_002''"
  by (simp add: workset_name_of_def eval_nat_numeral)

lemma find_upt_second:
  "Suc a < b \<Longrightarrow> \<not> P a \<Longrightarrow> P (Suc a) \<Longrightarrow> List.find P [a..<b] = Some (Suc a)"
  by (simp add: upt_conv_Cons)

lemma elig_ann:
  "\<not> eligible reliable ann_done_001 ''ann'' (Suc 0) \<and>
   eligible reliable ann_done_001 ''ann'' (Suc (Suc 0))"
  by (simp add: eligible_def workset_name_of_1 workset_name_of_2
      get_usage_statistics_def download_json_def ann_done_001_def usage_stats_path_def
      has_completed_workset_def download_csv_def record_path_def get_count_def)

lemma find_ann: "fst (find_available_workset reliable ann_done_001 ''ann'') = Some ''workset_002''"
proof -
  have "List.find (eligible reliable ann_done_001 ''ann'') [Suc 0..<101] = Some (Suc (Suc 0))"
    using elig_ann by (intro find_upt_second) simp_all
  then show ?thesis by (simp add: fst_find_available workset_name_of_2)
qed

theorem find_available_workset_first_eligible_witness:
  "fst (find_available_workset reliable ann_done_001 ''ann'') = Some ''workset_002'' \<and>
   (\<exists>i. 1 \<le> i \<and> i \<le> 100 \<and> ''workset_002'' = workset_name_of i \<and>
        eligible reliable ann_done_001 ''ann'' i \<and>
        (\<forall>j. 1 \<le> j \<and> j < i \<longrightarrow> \<not> eligible reliable ann_done_001 ''ann'' j))"
  using find_available_workset_first_eligible [of reliable ann_done_001 "''ann''"]
  by (simp only: find_ann option.case simp_thms)

section \<open>The commit and the record files\<close>

lemma same_recordsD:
  "same_records s s' \<Longrightarrow> prefix ''annotators/'' p \<Longrightarrow> map_of s' p = map_of s p"
  by (simp add: same_records_def)

lemmas map_of_frame =
  same_recordsD [OF same_records_generate]
  same_recordsD [OF same_records_get_usage]
  same_recordsD [OF same_records_still_available]
  same_recordsD [OF same_records_find_available]
  same_recordsD [OF same_records_update_safely]
  same_recordsD [OF same_records_rollback]
  same_recordsD [OF same_records_log]
  same_recordsD [OF same_records_create]
  same_recordsD [OF same_records_release]
  same_recordsD [OF same_records_try_acquire]

lemma download_csv_map_of:
  "download_csv f s p = (if download_fails f [] p then None
     else case map_of s p of Some (Csv df) \<Rightarrow> Some df | _ \<Rightarrow> None)"
  by (simp add: download_csv_def download_def blob_download_def)

lemma map_of_add:
  "map_of (snd (add_workset_to_user_record f s u k)) p =
     (if p = record_path u \<and> upload_outcome_of f [Write] (record_path u) \<noteq> Rejected
      then Some (Csv (rows_of (during Read f) s u @ [new_task k])) else map_of s p)"
  by (simp add: add_workset_to_user_record_def Let_def upload_csv_def map_of_upload rows_of_def
      new_task_def)

lemma fst_add:
  "fst (add_workset_to_user_record f s u k) =
     (upload_outcome_of f [Write] (record_path u) = Stored)"
  by (simp add: add_workset_to_user_record_def Let_def upload_csv_def upload_def
      split: upload_outcome.splits)

lemma map_of_remove:
  "map_of (remove_workset_from_user_record f s u k) p =
     (case download_csv (during Read f) s (record_path u) of
        None \<Rightarrow> map_of s p
      | Some df \<Rightarrow>
          (if p = record_path u \<and> upload_outcome_of f [Write] (record_path u) \<noteq> Rejected
           then Some (Csv (filter (kept_on_rollback k) df)) else map_of s p))"
proof -
  have eq: "kept_on_rollback k = (\<lambda>r. \<not> (workset r = Some k \<and> auto_assigned r))"
    by (rule ext) (simp add: kept_on_rollback_def)
  show ?thesis
    by (auto simp: remove_workset_from_user_record_def upload_csv_def map_of_upload eq
        split: option.splits)
qed

lemma rows_of_cong:
  "map_of s' (record_path u) = map_of s (record_path u) \<Longrightarrow> rows_of f s' u = rows_of f s u"
  by (simp add: rows_of_def download_csv_map_of)

lemma rows_of_update_safely [simp]:
  "rows_of g (snd (update_usage_statistics_safely f s k e)) u = rows_of g s u"
  by (rule rows_of_cong) (simp add: map_of_frame)

lemma not_kept_new [simp]: "\<not> kept_on_rollback k (new_task k)"
  by (simp add: kept_on_rollback_def new_task_def)

lemma map_of_commit_others:
  "prefix ''annotators/'' p \<Longrightarrow> p \<noteq> record_path u \<Longrightarrow>
   map_of (snd (complete_workset_assignment f s u k)) p = map_of s p"
  by (simp add: complete_workset_assignment_def Let_def split_beta map_of_frame map_of_add
      map_of_remove split: option.splits)

lemma filter_kept_new: "filter (kept_on_rollback k) (df @ [new_task k]) = filter (kept_on_rollback k) df"
  by simp

lemma map_of_commit_own:
  "map_of (snd (complete_workset_assignment f s u k)) (record_path u) = map_of s (record_path u) \<or>
   \<not> has_completed_workset (during Completed_check f) s u k \<and>
   get_real_time_usage_count (during Count f) s k < 3 \<and>
   (map_of (snd (complete_workset_assignment f s u k)) (record_path u) =
      Some (Csv (rows_of (during Read (during Append f)) s u @ [new_task k])) \<or>
    map_of (snd (complete_workset_assignment f s u k)) (record_path u) =
      Some (Csv (filter (kept_on_rollback k) (rows_of (during Read (during Append f)) s u))))"
  by (simp add: complete_workset_assignment_def Let_def split_beta map_of_frame map_of_add
      map_of_remove fst_add download_csv_map_of filter_kept_new split: option.splits)

lemma inj_record_path: "record_path u = record_path v \<Longrightarrow> u = v"
proof -
  assume a: "record_path u = record_path v"
  then have "length (record_path u) = length (record_path v)" by simp
  then have l: "length u = length v" by (simp add: record_path_def)
  define t where "t w = ''/'' @ w @ ''_record.csv''" for w :: string
  from a have "u @ t u = v @ t v"
    by (simp add: record_path_def t_def)
  with l show "u = v" using append_eq_append_conv [of u v "t u" "t v"] by blast
qed

lemma record_has_workset_reliable:
  "record_has_workset reliable s p k =
     (case map_of s p of Some (Csv df) \<Rightarrow> Some k \<in> set (map workset df) | _ \<Rightarrow> False)"
  by (simp add: record_has_workset_def download_csv_def split: option.splits blob.splits)

lemma record_has_workset_cong:
  "map_of s' p = map_of s p \<Longrightarrow> record_has_workset f s' p k = record_has_workset f s p k"
  by (simp add: record_has_workset_def download_csv_map_of)

lemma holders_frame: "same_records s s' \<Longrightarrow> holders s' k = holders s k"
  unfolding holders_def
  using record_has_workset_cong [OF same_recordsD [OF _ record_path_annotators]] by blast

lemma record_path_suffix [simp]:
  "suffix ''_record.csv'' (record_path u)" "\<not> suffix ''/'' (record_path u)"
  by (simp_all add: record_path_def suffix_to_prefix)

lemma holder_listed:
  assumes "u \<in> holders s k"
  shows "record_path u \<in> set (records_with reliable s k)"
proof -
  from assms have h: "record_has_workset reliable s (record_path u) k"
    by (simp add: holders_def)
  then obtain b where "map_of s (record_path u) = Some b"
    by (auto simp: record_has_workset_reliable split: option.splits)
  then have "record_path u \<in> fst ` set s" by (metis map_of_eq_None_iff option.distinct(1))
  with h show ?thesis
    by (simp add: records_with_def list_files_reliable)
qed

lemma card_holders_le:
  "finite (holders s k) \<and> card (holders s k) \<le> length (records_with reliable s k)"
proof -
  have sub: "record_path ` holders s k \<subseteq> set (records_with reliable s k)"
    using holder_listed by auto
  have inj: "inj_on record_path (holders s k)"
    by (rule inj_onI) (rule inj_record_path)
  have fin: "finite (record_path ` holders s k)"
    using sub by (rule finite_subset) simp
  then have f: "finite (holders s k)" using inj by (rule finite_imageD)
  have "card (holders s k) = card (record_path ` holders s k)"
    using inj by (simp add: card_image)
  also have "\<dots> \<le> card (set (records_with reliable s k))"
    using sub by (intro card_mono) simp_all
  also have "\<dots> \<le> length (records_with reliable s k)" by (rule card_length)
  finally show ?thesis using f by simp
qed

lemma reads_records_during: "reads_records f \<Longrightarrow> reads_records (during l f)"
  by (simp add: reads_records_def)

lemma download_csv_reads:
  "reads_records f \<Longrightarrow> prefix ''annotators/'' p \<Longrightarrow> download_csv f s p = download_csv reliable s p"
  by (simp add: reads_records_def download_csv_map_of reliable_def)

lemma records_with_reads:
  assumes "reads_records f"
  shows "records_with f s k = records_with reliable s k"
proof -
  have l: "list_files (during Listing f) s ''annotators/'' = list_files reliable s ''annotators/''"
    using assms by (simp add: list_files_annotators reads_records_def reliable_def)
  have "p \<in> set (list_files reliable s ''annotators/'') \<Longrightarrow>
        record_has_workset (during Read f) s p k = record_has_workset reliable s p k" for p
    using download_csv_reads [OF reads_records_during [OF assms], of p Read s]
    by (simp add: list_files_reliable record_has_workset_def)
  then show ?thesis
    unfolding records_with_def l during_reliable by (intro filter_cong) auto
qed

lemma rows_of_reads:
  "reads_records f \<Longrightarrow> rows_of f s u = rows_of reliable s u"
  by (simp add: rows_of_def download_csv_reads)

lemma holders_iff:
  "u \<in> holders s k \<longleftrightarrow> (\<exists>df. map_of s (record_path u) = Some (Csv df) \<and> Some k \<in> set (map workset df))"
  by (auto simp: holders_def record_has_workset_reliable split: option.splits blob.splits)

lemma rows_of_reliable_holder:
  "Some k \<in> set (map workset (rows_of reliable s u)) \<Longrightarrow> u \<in> holders s k"
  by (auto simp: holders_iff rows_of_def download_csv_map_of reliable_def
      split: option.splits blob.splits)

lemma commit_holders_subset:
  assumes "reads_records f"
  shows "holders (snd (complete_workset_assignment f s u k)) k' \<subseteq> holders s k' \<or>
         (k' = k \<and> get_real_time_usage_count (during Count f) s k < 3 \<and>
          holders (snd (complete_workset_assignment f s u k)) k' \<subseteq> insert u (holders s k'))"
proof -
  let ?s' = "snd (complete_workset_assignment f s u k)"
  have others: "v \<in> holders s k'" if "v \<in> holders ?s' k'" "v \<noteq> u" for v
  proof -
    have "record_path v \<noteq> record_path u" using that(2) inj_record_path by blast
    then have "map_of ?s' (record_path v) = map_of s (record_path v)"
      by (intro map_of_commit_others) simp_all
    with that(1) show ?thesis by (simp add: holders_iff)
  qed
  let ?g = "during Read (during Append f)"
  have rr: "rows_of ?g s u = rows_of reliable s u"
    by (intro rows_of_reads reads_records_during assms)
  from map_of_commit_own [of f s u k]
  consider (same) "map_of ?s' (record_path u) = map_of s (record_path u)"
    | (added) "get_real_time_usage_count (during Count f) s k < 3"
        "map_of ?s' (record_path u) = Some (Csv (rows_of ?g s u @ [new_task k]))"
    | (removed) "map_of ?s' (record_path u) = Some (Csv (filter (kept_on_rollback k) (rows_of ?g s u)))"
    by blast
  then show ?thesis
  proof cases
    case same
    then have "u \<in> holders ?s' k' \<Longrightarrow> u \<in> holders s k'" by (simp add: holders_iff)
    with others show ?thesis by blast
  next
    case added
    show ?thesis
    proof (cases "k' = k")
      case True
      with added(1) others show ?thesis by blast
    next
      case False
      have "u \<in> holders ?s' k' \<Longrightarrow> u \<in> holders s k'"
        using added(2) False rows_of_reliable_holder [of k' s u] rr
        by (auto simp: holders_iff new_task_def)
      with others show ?thesis by blast
    qed
  next
    case removed
    have "u \<in> holders ?s' k' \<Longrightarrow> u \<in> holders s k'"
      using removed rows_of_reliable_holder [of k' s u] rr
      by (auto simp: holders_iff)
    with others show ?thesis by blast
  qed
qed

lemma commit_keeps_cap:
  assumes "reads_records f" and "card (holders s k') \<le> 3"
  shows "card (holders (snd (complete_workset_assignment f s u k)) k') \<le> 3"
proof -
  let ?s' = "snd (complete_workset_assignment f s u k)"
  from commit_holders_subset [OF assms(1), of s u k k']
  show ?thesis
  proof
    assume "holders ?s' k' \<subseteq> holders s k'"
    then have "card (holders ?s' k') \<le> card (holders s k')"
      using card_holders_le [of s k'] by (intro card_mono) simp_all
    with assms(2) show ?thesis by simp
  next
    assume a: "k' = k \<and> get_real_time_usage_count (during Count f) s k < 3 \<and>
      holders ?s' k' \<subseteq> insert u (holders s k')"
    then have k: "k' = k" and lt: "get_real_time_usage_count (during Count f) s k < 3"
      and sub: "holders ?s' k' \<subseteq> insert u (holders s k')" by blast+
    from lt have "length (records_with reliable s k) < 3"
      using records_with_reads [OF reads_records_during [OF assms(1)], of Count s k]
      by (simp add: get_real_time_usage_count_eq)
    then have c: "card (holders s k') < 3" using card_holders_le [of s k] k by simp
    have fin: "finite (holders s k')" using card_holders_le [of s k'] by simp
    have "card (holders ?s' k') \<le> card (insert u (holders s k'))"
      using sub fin by (intro card_mono) simp_all
    also have "\<dots> \<le> Suc (card (holders s k'))" using fin by (simp add: card_insert_if)
    finally show ?thesis using c by simp
  qed
qed

section \<open>The request\<close>

text \<open>
  When the first read of the worker's task record succeeds and shows a row with status
  \<open>not_started\<close> or \<open>in_progress\<close>, \<open>request_new_workset\<close> returns no workset and leaves
  the store as it was: it returns before the scan, the lock and the commit.
\<close>

lemma pending_work_fails_fast:
  assumes "download_csv (during Pending_check f) s (record_path username) = Some record_df"
    and "r \<in> set record_df"
    and "status r = ''not_started'' \<or> status r = ''in_progress''"
  shows "request_new_workset f clock s username = (None, s)"
proof -
  have "filter (\<lambda>r. status r \<in> set [''in_progress'', ''not_started'']) record_df \<noteq> []"
    using assms(2,3) by (auto simp: filter_empty_conv)
  moreover have "record_df \<noteq> []" using assms(2) by auto
  ultimately have "has_pending_worksets (during Pending_check f) s username"
    using assms(1) by (simp add: has_pending_worksets_def)
  then show ?thesis by (simp add: request_new_workset_def)
qed

section \<open>The usage cap\<close>

text \<open>
  An invariant of the attempts: \<open>G\<close> is a property of the storage client that holds at
  every step once it holds for the request, \<open>P\<close> a property of the store that every
  operation of an attempt keeps, and \<open>Q\<close> a property of the candidates of the scan.
\<close>

lemma request_attempts_invariant:
  assumes step: "\<And>g l. G g \<Longrightarrow> G (during l g)"
    and find: "\<And>g s. G g \<Longrightarrow> P s \<Longrightarrow> P (snd (find_available_workset g s u))"
    and cand: "\<And>g s k. G g \<Longrightarrow> P s \<Longrightarrow> fst (find_available_workset g s u) = Some k \<Longrightarrow> Q k"
    and lock: "\<And>g s tk k. G g \<Longrightarrow> P s \<Longrightarrow> P (snd (try_acquire_workset_lock g tk s k u))"
    and avail: "\<And>g s k. G g \<Longrightarrow> P s \<Longrightarrow> P (snd (is_workset_still_available g s k))"
    and commit: "\<And>g s k. G g \<Longrightarrow> P s \<Longrightarrow> Q k \<Longrightarrow> P (snd (complete_workset_assignment g s u k))"
    and rel: "\<And>g s k. G g \<Longrightarrow> P s \<Longrightarrow> P (release_workset_lock g s k u)"
    and client: "G f"
    and init: "P s"
  shows "P (snd (request_attempts f attempts s u)) \<and>
         (\<forall>k. fst (request_attempts f attempts s u) = Some k \<longrightarrow> Q k)"
  using init
proof (induction attempts arbitrary: s)
  case Nil
  then show ?case by simp
next
  case (Cons a attempts)
  define g where "g = during (Attempt (fst a)) f"
  have g: "G g" unfolding g_def using client by (rule step)
  note gs = step [OF g]
  let ?r = "request_attempts f (a # attempts) s u"
  let ?find = "find_available_workset (during Scan g) s u"
  let ?s1 = "snd ?find"
  have p1: "P ?s1" using gs Cons.prems by (rule find)
  show ?case
  proof (cases "fst ?find")
    case None
    then have "?r = (None, ?s1)" by (simp add: split_beta Let_def g_def)
    with p1 show ?thesis by simp
  next
    case (Some k)
    have q: "Q k" using gs Cons.prems Some by (rule cand)
    let ?lock = "try_acquire_workset_lock (during Acquire g) (snd a) ?s1 k u"
    let ?s2 = "snd ?lock"
    have p2: "P ?s2" using gs p1 by (rule lock)
    show ?thesis
    proof (cases "fst ?lock")
      case False
      then have "?r = request_attempts f attempts ?s2 u"
        using Some by (simp add: split_beta Let_def g_def)
      with Cons.IH [OF p2] show ?thesis by simp
    next
      case acquired: True
      let ?still = "is_workset_still_available (during Recheck g) ?s2 k"
      let ?s3 = "snd ?still"
      have p3: "P ?s3" using gs p2 by (rule avail)
      show ?thesis
      proof (cases "fst ?still")
        case False
        then have "?r = request_attempts f attempts
                     (release_workset_lock (during Release g) ?s3 k u) u"
          using Some acquired by (simp add: split_beta Let_def g_def)
        with Cons.IH [OF rel [OF gs p3]] show ?thesis by simp
      next
        case still: True
        let ?commit = "complete_workset_assignment (during Commit g) ?s3 u k"
        let ?s4 = "snd ?commit"
        have p4: "P ?s4" using gs p3 q by (rule commit)
        have p5: "P (release_workset_lock (during Release g) ?s4 k u)"
          using gs p4 by (rule rel)
        show ?thesis
        proof (cases "fst ?commit")
          case True
          then have "?r = (Some k, release_workset_lock (during Release g) ?s4 k u)"
            using Some acquired still by (simp add: split_beta Let_def g_def)
          with p5 q show ?thesis by simp
        next
          case False
          then have "?r = request_attempts f attempts
                       (release_workset_lock (during Release g) ?s4 k u) u"
            using Some acquired still by (simp add: split_beta Let_def g_def)
          with Cons.IH [OF p5] show ?thesis by simp
        qed
      qed
    qed
  qed
qed

lemma request_keeps_cap:
  assumes "reads_records f" and "card (holders s k') \<le> 3"
  shows "card (holders (snd (request_new_workset f clock s u)) k') \<le> 3"
proof (cases "has_pending_worksets (during Pending_check f) s u")
  case True
  with assms(2) show ?thesis by (simp add: request_new_workset_def)
next
  case False
  let ?attempts = "map (\<lambda>attempt. (attempt, clock attempt)) [0..<5]"
  have "card (holders (snd (request_attempts f ?attempts s u)) k') \<le> 3 \<and>
        (\<forall>k. fst (request_attempts f ?attempts s u) = Some k \<longrightarrow> True)"
    by (rule request_attempts_invariant
          [where P = "\<lambda>s. card (holders s k') \<le> 3" and Q = "\<lambda>_. True" and G = reads_records])
       (simp_all add: holders_frame [OF same_records_find_available]
          holders_frame [OF same_records_try_acquire] holders_frame [OF same_records_still_available]
          holders_frame [OF same_records_release] commit_keeps_cap reads_records_during assms)
  with False show ?thesis by (simp add: request_new_workset_def)
qed

text \<open>
  What the checks of the program achieve while the records can be read: over every
  sequence of \<open>request_new_workset\<close> calls in which no listing of \<open>annotators/\<close> and no
  read of a record file fails, the number of distinct workers whose task record holds a
  row for a workset id stays at most 3 once it is at most 3. Uploads and deletions may
  fail in any way, at any step.
\<close>

lemma cap_kept_when_records_are_read:
  assumes "list_all (\<lambda>r. reads_records (fst r)) requests"
    and "card (holders s workset_name) \<le> 3"
  shows "card (holders (run_requests requests s) workset_name) \<le> 3"
  using assms
proof (induction requests arbitrary: s)
  case Nil
  then show ?case by simp
next
  case (Cons r requests)
  have "card (holders (snd (request_new_workset (fst r) (fst (snd r)) s (snd (snd r)))) workset_name) \<le> 3"
    using Cons.prems by (intro request_keeps_cap) simp_all
  with Cons.IH Cons.prems(1) show ?case by simp
qed

section \<open>Regeneration of an absent statistics object\<close>

lemma records_with_holders:
  assumes "records_are_workers s"
  shows "length (records_with reliable s k) = card (holders s k)"
proof -
  have dist: "distinct (records_with reliable s k)"
    using assms by (simp add: records_are_workers_def records_with_def list_files_reliable)
  have "set (records_with reliable s k) = record_path ` holders s k"
  proof
    show "record_path ` holders s k \<subseteq> set (records_with reliable s k)"
      using holder_listed by auto
    show "set (records_with reliable s k) \<subseteq> record_path ` holders s k"
    proof
      fix p assume p: "p \<in> set (records_with reliable s k)"
      then have "p \<in> set (map fst s)" "prefix ''annotators/'' p" "suffix ''_record.csv'' p"
        and has: "record_has_workset reliable s p k"
        by (auto simp: records_with_def list_files_reliable)
      then obtain u where u: "p = record_path u"
        using assms unfolding records_are_workers_def by blast
      with has have "u \<in> holders s k" by (simp add: holders_def)
      with u show "p \<in> record_path ` holders s k" by blast
    qed
  qed
  then have "card (set (records_with reliable s k)) = card (holders s k)"
    by (simp add: card_image inj_on_def inj_record_path)
  with dist show ?thesis by (simp add: distinct_card)
qed

lemma two_holders_workers: "records_are_workers two_holders"
proof -
  have "''annotators/ann/ann_record.csv'' = record_path ''ann''"
       "''annotators/bob/bob_record.csv'' = record_path ''bob''"
    by (simp_all add: record_path_def)
  moreover have "record_path ''ann'' \<noteq> record_path ''bob''"
    using inj_record_path [of "''ann''" "''bob''"] by auto
  ultimately show ?thesis
    unfolding records_are_workers_def two_holders_def by auto
qed

text \<open>
  C6: when the usage statistics object is absent, \<open>_get_usage_statistics\<close> does not
  answer with an empty dictionary: on a store whose requests succeed it regenerates the
  statistics by scanning the record files, stores the result, and returns for every
  workset id the number of record files that contain the id. Where every record file is
  the task record of a worker, that is the number of distinct workers whose record
  contains the id.
\<close>

theorem get_regenerates_absent_ledger:
  assumes "map_of s usage_stats_path = None"
  shows "get_count (fst (get_usage_statistics reliable s)) workset_name =
           int (length (records_with reliable s workset_name)) \<and>
         download_json reliable (snd (get_usage_statistics reliable s)) usage_stats_path =
           Some (fst (get_usage_statistics reliable s)) \<and>
         (records_are_workers s \<longrightarrow>
            get_count (fst (get_usage_statistics reliable s)) workset_name =
              int (card (holders s workset_name)))"
proof -
  have a: "get_usage_statistics reliable s = generate_usage_statistics reliable s"
    using assms by (simp add: get_usage_statistics_def download_json_def)
  have b: "download_json reliable (snd (generate_usage_statistics reliable s)) usage_stats_path =
           Some (fst (generate_usage_statistics reliable s))"
    by (simp add: generate_usage_statistics_def Let_def download_json_def update_conv')
  show ?thesis by (simp add: a b get_count_generate records_with_holders)
qed

lemma records_with_two_holders:
  "records_with reliable two_holders ''workset_001'' =
   [''annotators/ann/ann_record.csv'', ''annotators/bob/bob_record.csv'']"
  by (simp add: records_with_def list_files_reliable two_holders_def record_has_workset_def
      download_csv_def suffix_to_prefix)

theorem get_regenerates_absent_ledger_witness:
  "map_of two_holders usage_stats_path = None \<and> records_are_workers two_holders \<and>
   get_count (fst (get_usage_statistics reliable two_holders)) ''workset_001'' = 2 \<and>
   card (holders two_holders ''workset_001'') = 2"
proof -
  have a: "map_of two_holders usage_stats_path = None"
    by (simp add: two_holders_def usage_stats_path_def)
  show ?thesis
    using a two_holders_workers get_regenerates_absent_ledger [OF a, of "''workset_001''"]
    by (simp add: records_with_two_holders)
qed

section \<open>Taking the lock on a store without lock objects\<close>

lemma first_available_1:
  "get_count us ''workset_001'' < 3 \<Longrightarrow>
   \<not> has_completed_workset (during (Candidate (Suc 0)) f) s u ''workset_001'' \<Longrightarrow>
   first_available f s u us [Suc 0..<101] = Some ''workset_001''"
  by (simp add: upt_conv_Cons [of "Suc 0"] workset_name_of_1)

lemma request_first_attempt:
  assumes "\<not> has_pending_worksets (during Pending_check f) s u"
    and "find_available_workset (during Scan (during (Attempt 0) f)) s u = (Some k, s1)"
    and "try_acquire_workset_lock (during Acquire (during (Attempt 0) f)) (clock 0) s1 k u =
           (True, s2)"
    and "is_workset_still_available (during Recheck (during (Attempt 0) f)) s2 k = (True, s3)"
    and "fst (complete_workset_assignment (during Commit (during (Attempt 0) f)) s3 u k)"
  shows "request_new_workset f clock s u =
           (Some k, release_workset_lock (during Release (during (Attempt 0) f))
              (snd (complete_workset_assignment (during Commit (during (Attempt 0) f)) s3 u k))
              k u)"
  using assms by (simp add: request_new_workset_def upt_conv_Cons [of 0] split_beta Let_def)

lemma locks_reliable_during: "locks_reliable f \<Longrightarrow> locks_reliable (during l f)"
  by (simp add: locks_reliable_def)

lemma update_fresh: "k \<notin> fst ` set s \<Longrightarrow> AList.update k v s = s @ [(k, v)]"
  by (induction s) auto

lemma upload_fresh:
  "upload_outcome_of g [] p = Stored \<Longrightarrow> p \<notin> fst ` set s \<Longrightarrow>
   upload g s p b = (True, s @ [(p, b)])"
  by (simp add: upload_def update_fresh)

lemma delete_fresh:
  "k \<notin> fst ` set s \<Longrightarrow> AList.delete k (s @ rest) = s @ AList.delete k rest"
  by (induction s) auto

lemma list_locks_fresh:
  assumes "\<forall>p\<in>fst ` set s. \<not> prefix ''system/locks/'' p"
    and "\<not> list_fails g [] ''system/locks/''"
  shows "list_files g (s @ rest) (locks_dir @ ''/'') =
         filter (\<lambda>name. \<not> suffix ''/'' name)
           (sort (filter (prefix ''system/locks/'') (map fst rest)))"
proof -
  have "filter (prefix ''system/locks/'') (map fst s) = []"
    using assms(1) by (auto simp: filter_empty_conv)
  then show ?thesis
    using assms(2)
    by (simp add: list_files_def bucket_list_blobs_def locks_dir_def suffix_to_prefix)
qed

lemma dan_cid: "''dan'' @ ''_'' @ nonce (fixed_clock 0) = ''dan_1700000000000_10000''"
  by (simp add: fixed_clock_def)

lemma dan_path: "competition_path_of ''workset_001'' ''dan_1700000000000_10000'' = dan_bid_path"
  by (simp add: competition_path_of_def dan_bid_path_def locks_dir_def)

lemma dan_bid_eq:
  "\<lparr>lock_workset = ''workset_001'', owner = ''dan'',
     competition_id = ''dan_1700000000000_10000'', timestamp = competition_time (fixed_clock 0),
     lock_status = ''competing'', expires_at = None\<rparr> = dan_bid"
  by (simp add: dan_bid_def fixed_clock_def)

lemma dan_lock_eq:
  "\<lparr>lock_workset = ''workset_001'', owner = ''dan'',
     competition_id = ''dan_1700000000000_10000'', timestamp = lock_time (fixed_clock 0),
     lock_status = ''locked'', expires_at = Some (lock_expiry (fixed_clock 0))\<rparr> = dan_lock"
  by (simp add: dan_lock_def fixed_clock_def)

lemma lock_paths:
  "prefix ''system/locks/'' dan_bid_path"
  "prefix ''system/locks/'' (lock_path_of ''workset_001'')"
  "dan_bid_path \<noteq> lock_path_of ''workset_001''"
  "lock_path_of ''workset_001'' \<noteq> dan_bid_path"
  by (simp_all add: dan_bid_path_def lock_path_of_def locks_dir_def)

lemma l3: "sublist (competition_marker ''workset_001'') dan_bid_path"
  by (simp add: competition_marker_def dan_bid_path_def sublist_code)

lemma l3': "suffix ''.json'' dan_bid_path"
  by (simp add: dan_bid_path_def suffix_to_prefix)

lemma l7: "\<not> sublist (competition_marker ''workset_001'') (lock_path_of ''workset_001'')"
  by (simp add: competition_marker_def lock_path_of_def locks_dir_def sublist_code)

lemma sort_lock_paths:
  "sort [dan_bid_path, lock_path_of ''workset_001''] = [dan_bid_path, lock_path_of ''workset_001'']"
  by (simp add: dan_bid_path_def lock_path_of_def locks_dir_def)

lemma not_dir:
  "\<not> suffix ''/'' dan_bid_path" "\<not> suffix ''/'' (lock_path_of ''workset_001'')"
  by (simp_all add: dan_bid_path_def lock_path_of_def locks_dir_def suffix_to_prefix)

text \<open>
  On a store without objects under \<open>system/locks/\<close>, and with a client that serves the
  requests on such objects, the first attempt of \<open>dan\<close> takes the lock of \<open>workset_001\<close>;
  the store gains the lock object and nothing else.
\<close>

lemma dan_takes_lock:
  assumes quiet: "\<forall>p\<in>fst ` set s. \<not> prefix ''system/locks/'' p"
    and g: "locks_reliable g"
  shows "try_acquire_workset_lock g (fixed_clock 0) s ''workset_001'' ''dan'' =
           (True, s @ [(lock_path_of ''workset_001'', Lock dan_lock)])"
proof -
  let ?s1 = "s @ [(dan_bid_path, Lock dan_bid)]"
  let ?s2 = "s @ [(dan_bid_path, Lock dan_bid), (lock_path_of ''workset_001'', Lock dan_lock)]"
  have fresh: "dan_bid_path \<notin> fst ` set s" "lock_path_of ''workset_001'' \<notin> fst ` set s"
    using quiet lock_paths(1,2) by blast+
  have ok: "upload_outcome_of g site p = Stored" "\<not> list_fails g site p"
      "\<not> download_fails g site p" "\<not> delete_fails g site p"
    if "prefix ''system/locks/'' p" for site p
    using g that by (simp_all add: locks_reliable_def)
  have dir: "\<not> list_fails g site ''system/locks/''" for site
    by (rule ok) simp
  have u1: "upload (during Announce g) s dan_bid_path (Lock dan_bid) = (True, ?s1)"
    using fresh(1) by (intro upload_fresh) (simp add: ok lock_paths)
  have ls1: "list_files (during Listing (during Settle g)) ?s1 (locks_dir @ ''/'') = [dan_bid_path]"
    using list_locks_fresh [OF quiet, of "during Listing (during Settle g)"
        "[(dan_bid_path, Lock dan_bid)]"]
    by (simp add: dir lock_paths not_dir)
  have d1: "download_lock_json (during Read (during Settle g)) ?s1 dan_bid_path = Some dan_bid"
  proof -
    have "map_of s dan_bid_path = None" using fresh(1) by (simp add: map_of_eq_None_iff)
    then show ?thesis
      by (simp add: download_lock_json_def download_def blob_download_def ok lock_paths
          map_add_def)
  qed
  have win: "win_competition (during Settle g) ?s1 ''workset_001'' ''dan'' ''dan_1700000000000_10000''"
    by (simp add: win_competition_def ls1 competitors_of_def l3 l3' d1 is_winner_def)
       (simp add: dan_bid_def)
  have u2: "upload (during Confirm g) ?s1 (lock_path_of ''workset_001'') (Lock dan_lock) = (True, ?s2)"
    using upload_fresh [of "during Confirm g" "lock_path_of ''workset_001''" ?s1 "Lock dan_lock"]
      fresh(2)
    by (simp add: ok lock_paths)
  have ls2: "list_files (during Listing (during Cleanup g)) ?s2 (locks_dir @ ''/'') =
      [dan_bid_path, lock_path_of ''workset_001'']"
    using list_locks_fresh [OF quiet, of "during Listing (during Cleanup g)"
        "[(dan_bid_path, Lock dan_bid), (lock_path_of ''workset_001'', Lock dan_lock)]"]
    by (simp add: dir lock_paths not_dir sort_lock_paths del: sort_key_simps)
  have del: "delete_file (during Delete (during Cleanup g)) ?s2 dan_bid_path =
      (True, s @ [(lock_path_of ''workset_001'', Lock dan_lock)])"
    using fresh(1) delete_fresh [of dan_bid_path s
        "[(dan_bid_path, Lock dan_bid), (lock_path_of ''workset_001'', Lock dan_lock)]"]
    by (simp add: delete_file_def ok lock_paths)
  have clean: "cleanup_competition_files (during Cleanup g) ?s2 ''workset_001''
      ''dan_1700000000000_10000'' = s @ [(lock_path_of ''workset_001'', Lock dan_lock)]"
    by (simp add: cleanup_competition_files_def ls2 l3 l7 del)
  show ?thesis
    unfolding try_acquire_workset_lock_def
    by (simp only: dan_cid dan_path dan_bid_eq dan_lock_eq Let_def u1 u2 win clean
        case_prod_conv if_True if_False not_True_eq_False)
qed

section \<open>A request while the listing fails\<close>

lemma during_listing_down [simp]: "during l listing_down = listing_down"
  by (simp add: during_def listing_down_def reliable_def)

lemma locks_reliable_listing_down: "locks_reliable listing_down"
  by (auto simp: locks_reliable_def listing_down_def reliable_def)

lemma dan_not_pending: "\<not> has_pending_worksets listing_down three_holders ''dan''"
  by (simp add: has_pending_worksets_def download_csv_map_of three_holders_def record_path_def)

lemma dan_find:
  "find_available_workset listing_down three_holders ''dan'' =
     (Some ''workset_001'', three_holders_scanned)"
  by (simp add: find_available_workset_def get_usage_statistics_def generate_usage_statistics_def
      download_json_def download_def blob_download_def list_files_annotators upload_def
      listing_down_def reliable_def three_holders_def three_holders_scanned_def
      usage_stats_path_def first_available_1 get_count_def has_completed_workset_def
      download_csv_map_of record_path_def during_def)

lemma dan_lock:
  "try_acquire_workset_lock listing_down (fixed_clock 0) three_holders_scanned ''workset_001'' ''dan'' =
     (True, three_holders_locked)"
proof -
  have "\<forall>p\<in>fst ` set three_holders_scanned. \<not> prefix ''system/locks/'' p"
    by (simp add: three_holders_scanned_def three_holders_def)
  then show ?thesis
    using dan_takes_lock [OF _ locks_reliable_listing_down, of three_holders_scanned]
    by (simp add: three_holders_locked_def lock_path_of_def locks_dir_def dan_lock_def)
qed

lemma dan_still:
  "is_workset_still_available listing_down three_holders_locked ''workset_001'' =
     (True, three_holders_locked)"
  by (simp add: is_workset_still_available_def get_usage_statistics_def download_json_def
      download_def blob_download_def listing_down_def reliable_def three_holders_def
      three_holders_scanned_def three_holders_locked_def usage_stats_path_def get_count_def)

lemma dan_count: "get_real_time_usage_count listing_down three_holders_locked ''workset_001'' = 0"
  by (simp add: get_real_time_usage_count_def list_files_annotators) (simp add: listing_down_def)

lemma dan_not_completed:
  "\<not> has_completed_workset listing_down three_holders_locked ''dan'' ''workset_001''"
  by (simp add: has_completed_workset_def download_csv_map_of three_holders_def
      three_holders_scanned_def three_holders_locked_def record_path_def)

lemma dan_update:
  "fst (update_usage_statistics_safely listing_down three_holders_locked ''workset_001'' 0)"
  by (simp add: update_usage_statistics_safely_def download_json_def download_def
      blob_download_def upload_def listing_down_def reliable_def three_holders_def
      three_holders_scanned_def three_holders_locked_def usage_stats_path_def get_count_def)

lemma dan_add: "fst (add_workset_to_user_record listing_down s ''dan'' k)"
  by (simp add: fst_add listing_down_def reliable_def)

lemma dan_create:
  assumes "map_of s ''workset/dataset_001.csv'' = Some (Dataset d)"
  shows "fst (create_workset_file listing_down s ''dan'' ''workset_001'')"
  using assms
  by (simp add: create_workset_file_def download_dataset_csv_def download_def blob_download_def
      upload_def listing_down_def reliable_def during_def)

lemma map_of_update_safely_other:
  "p \<noteq> usage_stats_path \<Longrightarrow>
   map_of (snd (update_usage_statistics_safely f s k e)) p = map_of s p"
  by (simp add: update_usage_statistics_safely_def Let_def split_beta map_of_upload map_of_generate)

lemma commit_success_row:
  "fst (complete_workset_assignment f s u k) \<Longrightarrow>
   map_of (snd (complete_workset_assignment f s u k)) (record_path u) =
     Some (Csv (rows_of (during Read (during Append f)) s u @ [new_task k]))"
  by (simp add: complete_workset_assignment_def Let_def split_beta map_of_frame map_of_add
      fst_add split: if_splits)

lemma dan_commit:
  "fst (complete_workset_assignment listing_down three_holders_locked ''dan'' ''workset_001'')"
proof -
  have "map_of (snd (add_workset_to_user_record listing_down
          (snd (update_usage_statistics_safely listing_down three_holders_locked ''workset_001'' 0))
          ''dan'' ''workset_001'')) ''workset/dataset_001.csv'' = Some (Dataset [''row 1'', ''row 2''])"
    by (simp add: map_of_add map_of_update_safely_other record_path_def usage_stats_path_def)
       (simp add: three_holders_locked_def three_holders_scanned_def three_holders_def)
  then show ?thesis
    by (simp add: complete_workset_assignment_def dan_not_completed dan_count dan_update
        dan_add dan_create split_beta)
qed

lemma dan_request:
  "request_new_workset listing_down fixed_clock three_holders ''dan'' =
     (Some ''workset_001'',
      release_workset_lock listing_down
        (snd (complete_workset_assignment listing_down three_holders_locked ''dan'' ''workset_001''))
        ''workset_001'' ''dan'')"
  using request_first_attempt [of listing_down three_holders "''dan''" "''workset_001''"
      three_holders_scanned fixed_clock three_holders_locked three_holders_locked]
  by (simp add: dan_not_pending dan_find dan_lock dan_still dan_commit)

lemma three_holders_before:
  "records_with reliable three_holders ''workset_001'' =
     [''annotators/ann/ann_record.csv'', ''annotators/bob/bob_record.csv'',
      ''annotators/cat/cat_record.csv'']"
  by (simp add: records_with_def list_files_reliable three_holders_def record_has_workset_def
      download_csv_def suffix_to_prefix)

lemma same_records_three: "same_records three_holders three_holders_locked"
proof -
  have "same_records three_holders three_holders_scanned"
    using same_records_find_available [of three_holders listing_down "''dan''"]
    by (simp add: dan_find)
  moreover have "same_records three_holders_scanned three_holders_locked"
    using same_records_try_acquire [of three_holders_scanned listing_down "fixed_clock 0"
        "''workset_001''" "''dan''"]
    by (simp add: dan_lock)
  ultimately show ?thesis by (rule same_records_trans)
qed

lemma old_holders:
  "u \<in> {''ann'', ''bob'', ''cat''} \<Longrightarrow> u \<in> holders three_holders ''workset_001''"
  by (auto simp: holders_iff three_holders_def record_path_def)

lemma dan_row:
  "rows_of listing_down three_holders_locked ''dan'' = []"
  by (simp add: rows_of_def download_csv_map_of three_holders_def
      three_holders_scanned_def three_holders_locked_def record_path_def)

text \<open>
  C1: the cap of three assignees is broken by the program. Three workers hold
  \<open>workset_001\<close>, every listing of \<open>annotators/\<close> fails, and the request of a fourth
  worker, \<open>dan\<close>, is granted \<open>workset_001\<close>: afterwards four workers hold it.
  \<open>FirebaseStorage.list_files\<close> turns the failure into an empty listing, so the scans of
  the request count no record at all, and the handler of \<open>_get_real_time_usage_count\<close>
  that would answer 999 is never entered.
\<close>

theorem fourth_assignee_when_listing_fails:
  "card (holders three_holders ''workset_001'') \<le> 3 \<and>
   fst (request_new_workset listing_down fixed_clock three_holders ''dan'') = Some ''workset_001'' \<and>
   \<not> card (holders (run_requests [(listing_down, fixed_clock, ''dan'')] three_holders)
            ''workset_001'') \<le> 3"
proof -
  let ?s4 = "snd (complete_workset_assignment listing_down three_holders_locked ''dan'' ''workset_001'')"
  let ?s5 = "release_workset_lock listing_down ?s4 ''workset_001'' ''dan''"
  have before: "card (holders three_holders ''workset_001'') \<le> 3"
    using card_holders_le [of three_holders "''workset_001''"] by (simp add: three_holders_before)
  have h5: "holders ?s5 ''workset_001'' = holders ?s4 ''workset_001''"
    by (rule holders_frame) (rule same_records_release)
  have dan: "''dan'' \<in> holders ?s4 ''workset_001''"
    using commit_success_row [OF dan_commit] by (simp add: holders_iff dan_row new_task_def)
  have old: "u \<in> holders ?s4 ''workset_001''" if u: "u \<in> {''ann'', ''bob'', ''cat''}" for u
  proof -
    have ne: "record_path u \<noteq> record_path ''dan''" using u inj_record_path [of u "''dan''"] by auto
    have "u \<in> holders three_holders_locked ''workset_001''"
      using old_holders [OF u] holders_frame [OF same_records_three] by simp
    moreover have "map_of ?s4 (record_path u) = map_of three_holders_locked (record_path u)"
      using ne by (intro map_of_commit_others) simp_all
    ultimately show ?thesis by (simp add: holders_iff)
  qed
  have sub: "{''ann'', ''bob'', ''cat'', ''dan''} \<subseteq> holders ?s5 ''workset_001''"
    using dan old by (auto simp: h5)
  have "card {''ann'', ''bob'', ''cat'', ''dan''} \<le> card (holders ?s5 ''workset_001'')"
    using sub card_holders_le [of ?s5 "''workset_001''"] by (intro card_mono) simp_all
  then have "4 \<le> card (holders ?s5 ''workset_001'')" by simp
  then show ?thesis using before by (simp add: dan_request)
qed

section \<open>A request while the worker's record cannot be read\<close>

lemma during_dan_record_down [simp]: "during l dan_record_down = dan_record_down"
  by (simp add: during_def dan_record_down_def reliable_def)

lemma locks_reliable_dan_record_down: "locks_reliable dan_record_down"
  by (auto simp: locks_reliable_def dan_record_down_def reliable_def)

lemma dan_record_unread [simp]:
  "download_csv dan_record_down s (record_path ''dan'') = None"
  by (simp add: download_csv_map_of dan_record_down_def record_path_def)

lemma unread_not_pending: "\<not> has_pending_worksets dan_record_down s ''dan''"
  by (simp add: has_pending_worksets_def)

lemma unread_not_completed: "\<not> has_completed_workset dan_record_down s ''dan'' k"
  by (simp add: has_completed_workset_def)

lemma unread_listing:
  "list_files dan_record_down (dan_alone rows @ rest) ''annotators/'' =
     filter (\<lambda>name. \<not> suffix ''/'' name)
       (sort (''annotators/dan/dan_record.csv'' # filter (prefix ''annotators/'') (map fst rest)))"
  by (simp add: list_files_annotators dan_alone_def) (simp add: dan_record_down_def reliable_def)

lemma unread_find:
  "find_available_workset dan_record_down (dan_alone rows) ''dan'' =
     (Some ''workset_001'', dan_alone_scanned rows)"
proof -
  have l: "list_files dan_record_down (dan_alone rows) ''annotators/'' =
      [''annotators/dan/dan_record.csv'']"
    using unread_listing [of rows "[]"] by (simp add: suffix_to_prefix)
  have c: "count_record dan_record_down (dan_alone rows) ''annotators/dan/dan_record.csv'' uc = uc"
    for uc
    using dan_record_unread [of "dan_alone rows"]
    by (simp add: count_record_def record_path_def)
  have g: "generate_usage_statistics dan_record_down (dan_alone rows) =
      (Map.empty, dan_alone_scanned rows)"
    by (simp add: generate_usage_statistics_def l c Let_def)
       (simp add: upload_def dan_record_down_def reliable_def dan_alone_def dan_alone_scanned_def
          usage_stats_path_def)
  have u: "get_usage_statistics dan_record_down (dan_alone rows) =
      (Map.empty, dan_alone_scanned rows)"
  proof -
    have "download_json dan_record_down (dan_alone rows) usage_stats_path = None"
      by (simp add: download_json_def download_def blob_download_def dan_alone_def
          usage_stats_path_def)
    then show ?thesis by (simp add: get_usage_statistics_def g)
  qed
  show ?thesis
    by (simp add: find_available_workset_def u first_available_1 unread_not_completed
        get_count_def)
qed

lemma unread_lock:
  "try_acquire_workset_lock dan_record_down (fixed_clock 0) (dan_alone_scanned rows)
     ''workset_001'' ''dan'' = (True, dan_alone_locked rows)"
proof -
  have "\<forall>p\<in>fst ` set (dan_alone_scanned rows). \<not> prefix ''system/locks/'' p"
    by (simp add: dan_alone_scanned_def dan_alone_def)
  then show ?thesis
    using dan_takes_lock [OF _ locks_reliable_dan_record_down, of "dan_alone_scanned rows"]
    by (simp add: dan_alone_locked_def lock_path_of_def locks_dir_def)
qed

lemma unread_ledger:
  "download_json dan_record_down (dan_alone_locked rows) usage_stats_path = Some Map.empty"
  by (simp add: download_json_def download_def blob_download_def dan_record_down_def reliable_def
      dan_alone_locked_def dan_alone_scanned_def dan_alone_def usage_stats_path_def)

lemma unread_still:
  "is_workset_still_available dan_record_down (dan_alone_locked rows) ''workset_001'' =
     (True, dan_alone_locked rows)"
  by (simp add: is_workset_still_available_def get_usage_statistics_def unread_ledger
      get_count_def)

lemma unread_count:
  "get_real_time_usage_count dan_record_down (dan_alone_locked rows) ''workset_001'' = 0"
proof -
  have "records_with dan_record_down (dan_alone_locked rows) ''workset_001'' = []"
    using unread_listing [of rows "[(''system/workset_usage_stats.json'', Usage Map.empty),
        (''system/locks/workset_001_lock.json'', Lock dan_lock)]"]
      dan_record_unread [of "dan_alone_locked rows"]
    by (simp add: records_with_def dan_alone_locked_def dan_alone_scanned_def
        record_has_workset_def record_path_def)
  then show ?thesis by (simp add: get_real_time_usage_count_eq)
qed

lemma unread_update:
  "fst (update_usage_statistics_safely dan_record_down (dan_alone_locked rows) ''workset_001'' 0)"
  by (simp add: update_usage_statistics_safely_def unread_ledger get_count_def)
     (simp add: upload_def dan_record_down_def reliable_def)

lemma unread_add: "fst (add_workset_to_user_record dan_record_down s ''dan'' k)"
  by (simp add: fst_add dan_record_down_def reliable_def)

lemma unread_create:
  assumes "map_of s ''workset/dataset_001.csv'' = Some (Dataset d)"
  shows "fst (create_workset_file dan_record_down s ''dan'' ''workset_001'')"
  using assms
  by (simp add: create_workset_file_def download_dataset_csv_def download_def blob_download_def
      upload_def dan_record_down_def reliable_def during_def)

lemma unread_commit:
  "fst (complete_workset_assignment dan_record_down (dan_alone_locked rows) ''dan'' ''workset_001'')"
proof -
  have "map_of (snd (add_workset_to_user_record dan_record_down
          (snd (update_usage_statistics_safely dan_record_down (dan_alone_locked rows)
                  ''workset_001'' 0))
          ''dan'' ''workset_001'')) ''workset/dataset_001.csv'' = Some (Dataset [''row 1'', ''row 2''])"
    by (simp add: map_of_add map_of_update_safely_other record_path_def usage_stats_path_def)
       (simp add: dan_alone_locked_def dan_alone_scanned_def dan_alone_def)
  then show ?thesis
    by (simp add: complete_workset_assignment_def unread_not_completed unread_count unread_update
        unread_add unread_create split_beta)
qed

text \<open>
  Whatever rows the stored record of \<open>dan\<close> holds, a request of \<open>dan\<close> during which the
  record cannot be read is granted \<open>workset_001\<close>, and the record is replaced by the
  single new row: each read arrives as \<open>None\<close> and is taken for an absent record.
\<close>

lemma unread_request:
  "fst (request_new_workset dan_record_down fixed_clock (dan_alone rows) ''dan'') =
     Some ''workset_001'' \<and>
   map_of (snd (request_new_workset dan_record_down fixed_clock (dan_alone rows) ''dan''))
     (record_path ''dan'') = Some (Csv [new_task ''workset_001''])"
proof -
  let ?s4 = "snd (complete_workset_assignment dan_record_down (dan_alone_locked rows)
                    ''dan'' ''workset_001'')"
  have r: "request_new_workset dan_record_down fixed_clock (dan_alone rows) ''dan'' =
     (Some ''workset_001'', release_workset_lock dan_record_down ?s4 ''workset_001'' ''dan'')"
    using request_first_attempt [of dan_record_down "dan_alone rows" "''dan''" "''workset_001''"
        "dan_alone_scanned rows" fixed_clock "dan_alone_locked rows" "dan_alone_locked rows"]
    by (simp add: unread_not_pending unread_find unread_lock unread_still unread_commit)
  have "map_of ?s4 (record_path ''dan'') = Some (Csv [new_task ''workset_001''])"
    using commit_success_row [OF unread_commit, of rows] by (simp add: rows_of_def)
  then show ?thesis by (simp add: r map_of_frame)
qed

section \<open>Pending work\<close>

text \<open>
  C9: the fast-fail path is missed when the record cannot be read. The stored task
  record of \<open>dan\<close> holds a row with status \<open>in_progress\<close> and every read of the record
  fails: the request of \<open>dan\<close> does not return at once with the store untouched, it is
  granted \<open>workset_001\<close>, and the stored record is replaced by the single new row.
  \<open>download_csv\<close> answers \<open>None\<close> for the failed read, which \<open>_has_pending_worksets\<close>
  takes for an absent record; its handler that would answer \<open>True\<close> is never entered.
\<close>

theorem pending_work_ignored_when_read_fails:
  "map_of (dan_alone [\<lparr>workset = Some ''workset_002'', status = ''in_progress'',
                        auto_assigned = True\<rparr>]) (record_path ''dan'') =
     Some (Csv [\<lparr>workset = Some ''workset_002'', status = ''in_progress'',
                 auto_assigned = True\<rparr>]) \<and>
   fst (request_new_workset dan_record_down fixed_clock
          (dan_alone [\<lparr>workset = Some ''workset_002'', status = ''in_progress'',
                        auto_assigned = True\<rparr>]) ''dan'') = Some ''workset_001'' \<and>
   map_of (snd (request_new_workset dan_record_down fixed_clock
          (dan_alone [\<lparr>workset = Some ''workset_002'', status = ''in_progress'',
                        auto_assigned = True\<rparr>]) ''dan'')) (record_path ''dan'') =
     Some (Csv [new_task ''workset_001''])"
proof -
  have "map_of (dan_alone rows) (record_path ''dan'') = Some (Csv rows)" for rows
    by (simp add: dan_alone_def record_path_def)
  then show ?thesis
    using unread_request [of "[\<lparr>workset = Some ''workset_002'', status = ''in_progress'',
                        auto_assigned = True\<rparr>]"]
    by simp
qed

section \<open>Completed worksets\<close>







section \<open>The real-time count under a failing store\<close>

text \<open>
  A failed listing reaches \<open>_get_real_time_usage_count\<close> as an empty list of files, and
  a record that cannot be read is skipped: the count is then too low, whatever the store
  holds, and the value 999 of the \<open>except\<close> branch is never returned.
\<close>

lemma real_time_count_when_listing_fails:
  "list_fails f [Listing] ''annotators/'' \<Longrightarrow> get_real_time_usage_count f s workset_name = 0"
  by (simp add: get_real_time_usage_count_def list_files_annotators)

lemma length_filter_mono:
  "(\<And>x. x \<in> set xs \<Longrightarrow> P x \<Longrightarrow> Q x) \<Longrightarrow> length (filter P xs) \<le> length (filter Q xs)"
  by (induction xs) auto

lemma real_time_count_at_most_true_count:
  "get_real_time_usage_count f s workset_name \<le>
   get_real_time_usage_count reliable s workset_name"
proof -
  let ?P = "\<lambda>g p. suffix ''_record.csv'' p \<and> record_has_workset g s p workset_name"
  let ?files = "list_files (during Listing f) s ''annotators/''"
  have "record_has_workset g s p workset_name \<Longrightarrow>
        record_has_workset reliable s p workset_name" for p g
    by (auto simp: record_has_workset_def download_csv_map_of reliable_def
        split: if_splits option.splits blob.splits)
  then have a: "length (filter (?P (during Read f)) ?files) \<le> length (filter (?P reliable) ?files)"
    by (intro length_filter_mono) auto
  have b: "length (filter (?P reliable) ?files) \<le>
           length (filter (?P reliable) (list_files reliable s ''annotators/''))"
    by (simp add: list_files_annotators reliable_def)
  from a b have "length (records_with f s workset_name) \<le>
                 length (records_with reliable s workset_name)"
    unfolding records_with_def during_reliable by linarith
  then show ?thesis by (simp add: get_real_time_usage_count_eq)
qed

text \<open>
  C10: the code at the failing input. Three record files hold \<open>workset_001\<close>; when the
  listing of \<open>annotators/\<close> fails, \<open>_get_real_time_usage_count\<close> returns 0, not 999,
  and the commit for a fourth worker succeeds and appends the row.
\<close>

theorem commit_proceeds_when_listing_fails:
  "get_real_time_usage_count reliable three_holders_locked ''workset_001'' = 3 \<and>
   get_real_time_usage_count listing_down three_holders_locked ''workset_001'' = 0 \<and>
   fst (complete_workset_assignment listing_down three_holders_locked ''dan'' ''workset_001'') \<and>
   map_of (snd (complete_workset_assignment listing_down three_holders_locked ''dan'' ''workset_001''))
     (record_path ''dan'') = Some (Csv [new_task ''workset_001''])"
proof -
  have "records_with reliable three_holders_locked ''workset_001'' =
        records_with reliable three_holders ''workset_001''"
    by (simp add: records_with_def list_files_reliable record_has_workset_def download_csv_def
        three_holders_locked_def three_holders_scanned_def three_holders_def suffix_to_prefix)
  then have "get_real_time_usage_count reliable three_holders_locked ''workset_001'' = 3"
    by (simp add: get_real_time_usage_count_eq three_holders_before)
  then show ?thesis
    using commit_success_row [OF dan_commit] by (simp add: dan_count dan_commit dan_row)
qed

section \<open>Rollback\<close>

lemma ledger_count_cong:
  "map_of s' usage_stats_path = map_of s usage_stats_path \<Longrightarrow>
   ledger_count f s' k = ledger_count f s k"
  by (simp add: ledger_count_def download_json_def download_def blob_download_def)

lemma ledger_count_read:
  "\<not> download_fails f [] usage_stats_path \<Longrightarrow> ledger_count f s k = ledger_count reliable s k"
  by (simp add: ledger_count_def download_json_def download_def blob_download_def reliable_def)

lemma map_of_create_other:
  "p \<noteq> ''coding_result/'' @ u @ ''/'' @ k @ ''.csv'' \<Longrightarrow>
   map_of (snd (create_workset_file f s u k)) p = map_of s p"
  by (simp add: create_workset_file_def Let_def map_of_upload split: option.splits)

lemma map_of_create_usage [simp]:
  "map_of (snd (create_workset_file f s u k)) usage_stats_path = map_of s usage_stats_path"
  by (rule map_of_create_other) (simp add: usage_stats_path_def)

lemma map_of_create_record [simp]:
  "map_of (snd (create_workset_file f s u k)) (record_path v) = map_of s (record_path v)"
  by (rule map_of_create_other) (simp add: record_path_def)

lemma map_of_add_usage [simp]:
  "map_of (snd (add_workset_to_user_record f s u k)) usage_stats_path = map_of s usage_stats_path"
  using record_path_neq_usage [of u] by (simp add: map_of_add del: record_path_neq_usage)

lemma map_of_remove_usage [simp]:
  "map_of (remove_workset_from_user_record f s u k) usage_stats_path = map_of s usage_stats_path"
  using record_path_neq_usage [of u]
  by (auto simp: map_of_remove simp del: record_path_neq_usage split: option.splits)

text \<open>What a successful increment leaves in the statistics object.\<close>

lemma update_success_ledger:
  assumes "fst (update_usage_statistics_safely f s k e)"
  shows "\<exists>d. map_of (snd (update_usage_statistics_safely f s k e)) usage_stats_path =
               Some (Usage (d(k \<mapsto> observed_count f s k e + 1))) \<and>
             get_count d k = observed_count f s k e"
proof -
  define usage0 where
    "usage0 = (case download_json (during Read f) s usage_stats_path of
                 Some d \<Rightarrow> d | None \<Rightarrow> Map.empty)"
  define r where
    "r = (if \<bar>get_count usage0 k - e\<bar> > 1
          then generate_usage_statistics (during Regenerate f) s else (usage0, s))"
  have obs: "get_count (fst r) k = observed_count f s k e"
    by (simp add: r_def observed_count_def ledger_count_def usage0_def)
  have upd: "update_usage_statistics_safely f s k e =
      (if get_count (fst r) k + 1 > 3 then (False, snd r)
       else upload (during Write f) (snd r) usage_stats_path
              (Usage ((fst r)(k \<mapsto> get_count (fst r) k + 1))))"
    by (simp add: update_usage_statistics_safely_def Let_def split_beta r_def usage0_def)
  from assms have le: "\<not> get_count (fst r) k + 1 > 3"
    and ok: "fst (upload (during Write f) (snd r) usage_stats_path
              (Usage ((fst r)(k \<mapsto> get_count (fst r) k + 1))))"
    unfolding upd by (auto split: if_splits)
  from ok have "upload_outcome_of (during Write f) [] usage_stats_path = Stored"
    by (auto simp: upload_def split: upload_outcome.splits)
  then have "map_of (snd (update_usage_statistics_safely f s k e)) usage_stats_path =
      Some (Usage ((fst r)(k \<mapsto> get_count (fst r) k + 1)))"
    using le unfolding upd by (simp add: map_of_upload)
  then show ?thesis using obs by auto
qed

lemma rollback_after_increment:
  assumes "map_of s usage_stats_path = Some (Usage (d(k \<mapsto> c + 1)))" and "0 \<le> c"
    and "get_count d k = c"
    and "\<not> download_fails f [Read] usage_stats_path"
    and "upload_outcome_of f [Write] usage_stats_path = Stored"
  shows "ledger_count reliable (rollback_usage_statistics f s k) k = c"
  using assms
  by (auto simp: rollback_usage_statistics_def ledger_count_def download_json_def download_def
      blob_download_def upload_def update_conv' get_count_def Let_def reliable_def)

lemma map_of_rollback_other:
  "p \<noteq> usage_stats_path \<Longrightarrow> map_of (rollback_usage_statistics f s k) p = map_of s p"
  by (simp add: rollback_usage_statistics_def Let_def map_of_upload split: option.splits)

lemma fst_create_cong:
  "map_of s' (''workset/dataset_'' @ remove_workset_prefix k @ ''.csv'') =
   map_of s (''workset/dataset_'' @ remove_workset_prefix k @ ''.csv'') \<Longrightarrow>
   fst (create_workset_file f s' u k) = fst (create_workset_file f s u k)"
  by (simp add: create_workset_file_def Let_def download_dataset_csv_def download_def
      blob_download_def upload_def split: option.splits blob.splits upload_outcome.splits)

lemma rows_without:
  "\<not> record_has_workset reliable s (record_path u) k \<Longrightarrow>
   Some k \<notin> set (map workset (rows_of g s u))"
  by (auto simp: record_has_workset_reliable rows_of_def download_csv_map_of
      split: option.splits blob.splits if_splits)

text \<open>The commit once steps (a) and (b) have passed and step (c) has succeeded.\<close>

lemma commit_after_increment:
  assumes "\<not> has_completed_workset (during Completed_check f) s u k"
    and "get_real_time_usage_count (during Count f) s k < 3"
    and "fst (update_usage_statistics_safely (during Increment f) s k
                (get_real_time_usage_count (during Count f) s k))"
    and "s1 = snd (update_usage_statistics_safely (during Increment f) s k
                (get_real_time_usage_count (during Count f) s k))"
    and "s2 = snd (add_workset_to_user_record (during Append f) s1 u k)"
    and "s3 = snd (create_workset_file (during Materialize f) s2 u k)"
  shows "complete_workset_assignment f s u k =
     (if upload_outcome_of f [Append, Write] (record_path u) \<noteq> Stored
      then (False, rollback_usage_statistics (during Rollback f) s2 k)
      else if \<not> fst (create_workset_file (during Materialize f) s2 u k)
      then (False, remove_workset_from_user_record (during Remove f)
                     (rollback_usage_statistics (during Rollback f) s3 k) u k)
      else (True, log_assignment (during Log_entry f) s3 u k))"
  using assms by (simp add: complete_workset_assignment_def split_beta fst_add Let_def)

text \<open>
  C4 (as amended): take an assignment attempt in which commit steps (a) and (b) pass and
  step (c) succeeds, and let \<open>n\<close> be the count that step (c) incremented: the stored count
  of the candidate when step (c) read it within 1 of the real-time count, and the count of
  the statistics that step (c) regenerated by its scan otherwise.

  \<^item> If the commit does not complete, \<open>n\<close> is not negative, and the rollback's read and
    write of the statistics succeed, then the candidate's count in the stored statistics
    is \<open>n\<close> again: the statistics are not left incremented.
  \<^item> \<open>n\<close> is the stored count before the attempt when that is within 1 of the real-time
    count and step (c) could read it; when the count that step (c) read is further off,
    \<open>n\<close> is the number of record files in which the regenerating scan found the id.
  \<^item> If step (d) is rejected before anything is written, or step (d) succeeds and step
    (e) fails, the commit fails.
  \<^item> If moreover the worker's stored record had no row for the candidate before the
    attempt and, in the case of step (e), the rollback's read and rewrite of the record
    succeed, the worker's stored record has no row for the candidate afterwards.

  Every other request of the storage client may fail in any way.
\<close>

theorem rollback_returns_incremented_count:
  assumes count: "expected = get_real_time_usage_count (during Count f) s k"
    and observed: "n = observed_count (during Increment f) s k expected"
    and after: "s' = snd (complete_workset_assignment f s u k)"
    and a: "\<not> has_completed_workset (during Completed_check f) s u k"
    and b: "expected < 3"
    and c: "fst (update_usage_statistics_safely (during Increment f) s k expected)"
  shows "(\<not> fst (complete_workset_assignment f s u k) \<and> 0 \<le> n \<and>
          \<not> download_fails f [Rollback, Read] usage_stats_path \<and>
          upload_outcome_of f [Rollback, Write] usage_stats_path = Stored \<longrightarrow>
            ledger_count reliable s' k = n) \<and>
         (\<bar>ledger_count reliable s k - expected\<bar> \<le> 1 \<and>
          \<not> download_fails f [Increment, Read] usage_stats_path \<longrightarrow>
            n = ledger_count reliable s k) \<and>
         (\<bar>ledger_count (during Read (during Increment f)) s k - expected\<bar> > 1 \<longrightarrow>
            n = int (length (records_with (during Regenerate (during Increment f)) s k))) \<and>
         (upload_outcome_of f [Append, Write] (record_path u) = Rejected \<or>
          upload_outcome_of f [Append, Write] (record_path u) = Stored \<and>
          \<not> fst (create_workset_file (during Materialize f) s u k) \<longrightarrow>
            \<not> fst (complete_workset_assignment f s u k)) \<and>
         (\<not> record_has_workset reliable s (record_path u) k \<and>
          (upload_outcome_of f [Append, Write] (record_path u) = Rejected \<or>
           upload_outcome_of f [Append, Write] (record_path u) = Stored \<and>
           \<not> fst (create_workset_file (during Materialize f) s u k) \<and>
           \<not> download_fails f [Remove, Read] (record_path u) \<and>
           upload_outcome_of f [Remove, Write] (record_path u) = Stored) \<longrightarrow>
            \<not> record_has_workset reliable s' (record_path u) k)"
proof -
  let ?rp = "record_path u"
  let ?inc = "update_usage_statistics_safely (during Increment f) s k expected"
  define s1 where "s1 = snd ?inc"
  define s2 where "s2 = snd (add_workset_to_user_record (during Append f) s1 u k)"
  define s3 where "s3 = snd (create_workset_file (during Materialize f) s2 u k)"
  define s4 where "s4 = rollback_usage_statistics (during Rollback f) s3 k"
  define rows where "rows = rows_of (during Read (during Append f)) s u"
  have commit: "complete_workset_assignment f s u k =
     (if upload_outcome_of f [Append, Write] ?rp \<noteq> Stored
      then (False, rollback_usage_statistics (during Rollback f) s2 k)
      else if \<not> fst (create_workset_file (during Materialize f) s2 u k)
      then (False, remove_workset_from_user_record (during Remove f) s4 u k)
      else (True, log_assignment (during Log_entry f) s3 u k))"
    unfolding s4_def
    using a b c s1_def s2_def s3_def unfolding count
    by (intro commit_after_increment) simp_all
  from update_success_ledger [OF c] obtain d
    where d: "map_of s1 usage_stats_path = Some (Usage (d(k \<mapsto> n + 1)))" "get_count d k = n"
    unfolding s1_def observed by blast
  have s2_usage: "map_of s2 usage_stats_path = Some (Usage (d(k \<mapsto> n + 1)))"
    using d(1) by (simp add: s2_def)
  have s3_usage: "map_of s3 usage_stats_path = Some (Usage (d(k \<mapsto> n + 1)))"
    using s2_usage by (simp add: s3_def)
  have s1_rp: "map_of s1 ?rp = map_of s ?rp"
    unfolding s1_def by (rule map_of_update_safely_other) simp
  have rows1: "rows_of (during Read (during Append f)) s1 u = rows"
    unfolding rows_def using s1_rp by (rule rows_of_cong)
  have dataset: "map_of s2 (''workset/dataset_'' @ remove_workset_prefix k @ ''.csv'') =
          map_of s (''workset/dataset_'' @ remove_workset_prefix k @ ''.csv'')"
    unfolding s2_def s1_def
    by (simp add: map_of_add map_of_update_safely_other record_path_def usage_stats_path_def)
  have create: "fst (create_workset_file (during Materialize f) s2 u k) =
                fst (create_workset_file (during Materialize f) s u k)"
    using dataset by (rule fst_create_cong)
  have ledger: "ledger_count reliable s' k = n"
    if "\<not> fst (complete_workset_assignment f s u k)" "0 \<le> n"
      "\<not> download_fails f [Rollback, Read] usage_stats_path"
      "upload_outcome_of f [Rollback, Write] usage_stats_path = Stored"
  proof (cases "upload_outcome_of f [Append, Write] ?rp = Stored")
    case False
    then have "s' = rollback_usage_statistics (during Rollback f) s2 k"
      by (simp add: after commit)
    then show ?thesis
      using s2_usage that(2-4) d(2)
      by (simp add: rollback_after_increment [where d = d])
  next
    case True
    with that(1) have "s' = remove_workset_from_user_record (during Remove f) s4 u k"
      by (simp add: after commit split: if_splits)
    moreover have "ledger_count reliable s4 k = n"
      unfolding s4_def using s3_usage that(2-4) d(2)
      by (simp add: rollback_after_increment [where d = d])
    ultimately show ?thesis
      using ledger_count_cong [of s' s4 reliable k] by simp
  qed
  have agree: "n = ledger_count reliable s k"
    if "\<bar>ledger_count reliable s k - expected\<bar> \<le> 1"
      "\<not> download_fails f [Increment, Read] usage_stats_path"
  proof -
    have "ledger_count (during Read (during Increment f)) s k = ledger_count reliable s k"
      using that(2) by (intro ledger_count_read) simp
    with that(1) show ?thesis by (simp add: observed observed_count_def)
  qed
  have regenerated: "n = int (length (records_with (during Regenerate (during Increment f)) s k))"
    if "\<bar>ledger_count (during Read (during Increment f)) s k - expected\<bar> > 1"
    using that by (simp add: observed observed_count_def get_count_generate)
  have fails: "\<not> fst (complete_workset_assignment f s u k)"
    if "upload_outcome_of f [Append, Write] ?rp = Rejected \<or>
        upload_outcome_of f [Append, Write] ?rp = Stored \<and>
        \<not> fst (create_workset_file (during Materialize f) s u k)"
    using that by (auto simp: commit create)
  have norow: "\<not> record_has_workset reliable s' ?rp k"
    if none: "\<not> record_has_workset reliable s ?rp k"
      and how: "upload_outcome_of f [Append, Write] ?rp = Rejected \<or>
        upload_outcome_of f [Append, Write] ?rp = Stored \<and>
        \<not> fst (create_workset_file (during Materialize f) s u k) \<and>
        \<not> download_fails f [Remove, Read] ?rp \<and>
        upload_outcome_of f [Remove, Write] ?rp = Stored"
    using how
  proof
    assume rej: "upload_outcome_of f [Append, Write] ?rp = Rejected"
    then have "s' = rollback_usage_statistics (during Rollback f) s2 k"
      by (simp add: after commit)
    then have "map_of s' ?rp = map_of s ?rp"
      using rej s1_rp by (simp add: map_of_rollback_other s2_def map_of_add)
    then have "record_has_workset reliable s' ?rp k = record_has_workset reliable s ?rp k"
      by (rule record_has_workset_cong)
    with none show ?thesis by simp
  next
    assume st: "upload_outcome_of f [Append, Write] ?rp = Stored \<and>
        \<not> fst (create_workset_file (during Materialize f) s u k) \<and>
        \<not> download_fails f [Remove, Read] ?rp \<and>
        upload_outcome_of f [Remove, Write] ?rp = Stored"
    then have s': "s' = remove_workset_from_user_record (during Remove f) s4 u k"
      by (simp add: after commit create)
    have "map_of s2 ?rp = Some (Csv (rows @ [new_task k]))"
      using st by (simp add: s2_def map_of_add rows1)
    then have "map_of s4 ?rp = Some (Csv (rows @ [new_task k]))"
      by (simp add: s4_def s3_def map_of_rollback_other)
    then have "download_csv (during Read (during Remove f)) s4 ?rp = Some (rows @ [new_task k])"
      using st by (simp add: download_csv_map_of)
    then have "map_of s' ?rp = Some (Csv (filter (kept_on_rollback k) rows))"
      using st by (simp add: s' map_of_remove)
    moreover have "Some k \<notin> set (map workset rows)"
      unfolding rows_def using none by (rule rows_without)
    ultimately show ?thesis
      by (auto simp: record_has_workset_reliable)
  qed
  from ledger agree regenerated fails norow show ?thesis by blast
qed

subsection \<open>The commit on a store without the dataset\<close>

lemma commit_faults_simps [simp]:
  "list_fails (commit_faults ao ro) site p = False"
  "download_fails (commit_faults ao ro) site p = False"
  "delete_fails (commit_faults ao ro) site p = False"
  "upload_outcome_of (commit_faults ao ro) site p =
     (if site = [Append, Write] then ao else if site = [Rollback, Write] then ro else Stored)"
  by (simp_all add: commit_faults_def reliable_def)

lemma commit_faults_reliable: "commit_faults Stored Stored = reliable"
  by (auto simp: commit_faults_def reliable_def fun_eq_iff)

lemma reads_records_commit_faults: "reads_records (during l (commit_faults ao ro))"
  by (simp add: reads_records_def)

lemma drift_records:
  "records_with reliable (drift_store usage None) ''workset_001'' =
     [''annotators/ann/ann_record.csv'', ''annotators/bob/bob_record.csv'']"
  by (simp add: records_with_def list_files_reliable drift_store_def
      record_has_workset_def download_csv_def suffix_to_prefix)

lemma drift_count:
  "reads_records g \<Longrightarrow> get_real_time_usage_count g (drift_store usage None) ''workset_001'' = 2"
  by (simp add: get_real_time_usage_count_eq records_with_reads drift_records)

lemma drift_ledger: "ledger_count reliable (drift_store usage rows) k = get_count usage k"
  by (simp add: ledger_count_def download_json_def drift_store_def usage_stats_path_def)

lemma drift_download_json:
  "\<not> download_fails g [] usage_stats_path \<Longrightarrow>
   download_json g (drift_store usage rows) usage_stats_path = Some usage"
  by (simp add: download_json_def download_def blob_download_def drift_store_def
      usage_stats_path_def)

lemma drift_upload_usage:
  "upload g (drift_store usage rows) usage_stats_path (Usage usage') =
     (upload_outcome_of g [] usage_stats_path = Stored,
      if upload_outcome_of g [] usage_stats_path = Rejected then drift_store usage rows
      else drift_store usage' rows)"
  by (cases "upload_outcome_of g [] usage_stats_path")
     (simp_all add: upload_def drift_store_def usage_stats_path_def)

lemma drift_generate:
  "generate_usage_statistics reliable (drift_store usage None) =
     ([''workset_001'' \<mapsto> 2], drift_store [''workset_001'' \<mapsto> 2] None)"
  by (simp add: generate_usage_statistics_def list_files_reliable drift_store_def count_record_def
      download_csv_def suffix_to_prefix unique_worksets_def get_count_def usage_stats_path_def
      Let_def)

lemma drift_update_regenerating:
  "update_usage_statistics_safely reliable (drift_store Map.empty None) ''workset_001'' 2 =
     (True, drift_store [''workset_001'' \<mapsto> 3] None)"
  by (simp add: update_usage_statistics_safely_def drift_download_json drift_generate
      drift_upload_usage get_count_def del: upload_reliable)

lemma drift_update_agreeing:
  "update_usage_statistics_safely (during Increment (commit_faults ao ro))
     (drift_store [''workset_001'' \<mapsto> 2] None) ''workset_001'' 2 =
     (True, drift_store [''workset_001'' \<mapsto> 3] None)"
  by (simp add: update_usage_statistics_safely_def drift_download_json drift_upload_usage
      get_count_def)

lemma drift_add:
  "add_workset_to_user_record g (drift_store usage None) ''cat'' k =
     (upload_outcome_of g [Write] (record_path ''cat'') = Stored,
      if upload_outcome_of g [Write] (record_path ''cat'') = Rejected then drift_store usage None
      else drift_store usage (Some [new_task k]))"
  by (cases "upload_outcome_of g [Write] (record_path ''cat'')")
     (simp_all add: add_workset_to_user_record_def upload_csv_def upload_def download_csv_map_of
        drift_store_def record_path_def new_task_def Let_def)

lemma drift_create:
  "create_workset_file g (drift_store usage rows) u k = (False, drift_store usage rows)"
  by (simp add: create_workset_file_def download_dataset_csv_def download_def blob_download_def
      drift_store_def Let_def split: option.splits)

lemma drift_rollback:
  "\<not> download_fails g [Read] usage_stats_path \<Longrightarrow>
   rollback_usage_statistics g (drift_store [''workset_001'' \<mapsto> 3] rows) ''workset_001'' =
     (if upload_outcome_of g [Write] usage_stats_path = Rejected
      then drift_store [''workset_001'' \<mapsto> 3] rows
      else drift_store [''workset_001'' \<mapsto> 2] rows)"
  by (simp add: rollback_usage_statistics_def drift_download_json drift_upload_usage)

lemma drift_remove:
  "\<not> download_fails g [Read] (record_path ''cat'') \<Longrightarrow>
   upload_outcome_of g [Write] (record_path ''cat'') = Stored \<Longrightarrow>
   remove_workset_from_user_record g (drift_store usage (Some [new_task k])) ''cat'' k =
     drift_store usage (Some [])"
  by (simp add: remove_workset_from_user_record_def upload_csv_def upload_def download_csv_map_of
      drift_store_def record_path_def new_task_def)

lemma drift_not_completed:
  "\<not> has_completed_workset g (drift_store usage None) ''cat'' k"
  by (simp add: has_completed_workset_def download_csv_map_of drift_store_def record_path_def)

lemma drift_no_row:
  "\<not> record_has_workset reliable (drift_store usage None) (record_path ''cat'') k"
  "\<not> record_has_workset reliable (drift_store usage (Some [])) (record_path ''cat'') k"
  "record_has_workset reliable (drift_store usage (Some [new_task k])) (record_path ''cat'') k"
  by (simp_all add: record_has_workset_reliable drift_store_def record_path_def new_task_def)

lemma drift_commit:
  "complete_workset_assignment (commit_faults Stored Stored)
     (drift_store [''workset_001'' \<mapsto> 2] None) ''cat'' ''workset_001'' =
     (False, drift_store [''workset_001'' \<mapsto> 2] (Some []))"
  by (simp add: complete_workset_assignment_def drift_not_completed drift_count
      reads_records_commit_faults drift_update_agreeing drift_add drift_create drift_rollback
      drift_remove)

text \<open>
  Two requests whose failure the amended statement excludes. When the upload of step (d)
  stores the record and then reports failure, the rollback decrements the count and the
  new row stays in the record; when the rollback's write of the statistics is rejected,
  the count stays incremented although the commit failed.
\<close>

lemma unpatched_append_leaves_row:
  "complete_workset_assignment (commit_faults Stored_unpatched Stored)
     (drift_store [''workset_001'' \<mapsto> 2] None) ''cat'' ''workset_001'' =
     (False, drift_store [''workset_001'' \<mapsto> 2] (Some [new_task ''workset_001'']))"
  by (simp add: complete_workset_assignment_def drift_not_completed drift_count
      reads_records_commit_faults drift_update_agreeing drift_add drift_rollback)

lemma rejected_rollback_leaves_increment:
  "complete_workset_assignment (commit_faults Stored Rejected)
     (drift_store [''workset_001'' \<mapsto> 2] None) ''cat'' ''workset_001'' =
     (False, drift_store [''workset_001'' \<mapsto> 3] (Some []))"
  by (simp add: complete_workset_assignment_def drift_not_completed drift_count
      reads_records_commit_faults drift_update_agreeing drift_add drift_create drift_rollback
      drift_remove)

text \<open>
  C4 as stated fails, with no request failing: the stored count of \<open>workset_001\<close> is 0
  while two records hold it. Step (c) regenerates the statistics (count 2) and stores 3,
  the row is appended, the materializer finds no dataset, and the rollback leaves the
  count at 2, not at its value before the attempt.
\<close>

theorem rollback_leaves_regenerated_count:
  "ledger_count reliable (drift_store Map.empty None) ''workset_001'' = 0 \<and>
   update_usage_statistics_safely reliable (drift_store Map.empty None) ''workset_001'' 2 =
     (True, drift_store [''workset_001'' \<mapsto> 3] None) \<and>
   fst (add_workset_to_user_record reliable (drift_store [''workset_001'' \<mapsto> 3] None)
          ''cat'' ''workset_001'') \<and>
   \<not> fst (create_workset_file reliable
            (drift_store [''workset_001'' \<mapsto> 3] (Some [new_task ''workset_001'']))
            ''cat'' ''workset_001'') \<and>
   complete_workset_assignment reliable (drift_store Map.empty None) ''cat'' ''workset_001'' =
     (False, drift_store [''workset_001'' \<mapsto> 2] (Some [])) \<and>
   ledger_count reliable (drift_store [''workset_001'' \<mapsto> 2] (Some [])) ''workset_001'' = 2"
proof -
  have r: "reads_records reliable" by (simp add: reads_records_def)
  show ?thesis
    by (simp add: complete_workset_assignment_def drift_not_completed drift_count [OF r]
        drift_update_regenerating drift_add drift_create drift_rollback drift_remove drift_ledger
        get_count_def del: upload_reliable)
qed

theorem rollback_returns_incremented_count_witness:
  "get_real_time_usage_count reliable (drift_store [''workset_001'' \<mapsto> 2] None) ''workset_001'' = 2 \<and>
   observed_count reliable (drift_store [''workset_001'' \<mapsto> 2] None) ''workset_001'' 2 = 2 \<and>
   fst (update_usage_statistics_safely reliable (drift_store [''workset_001'' \<mapsto> 2] None)
          ''workset_001'' 2) \<and>
   \<not> fst (create_workset_file reliable (drift_store [''workset_001'' \<mapsto> 2] None)
            ''cat'' ''workset_001'') \<and>
   \<not> fst (complete_workset_assignment reliable (drift_store [''workset_001'' \<mapsto> 2] None)
            ''cat'' ''workset_001'') \<and>
   ledger_count reliable (drift_store [''workset_001'' \<mapsto> 2] None) ''workset_001'' = 2 \<and>
   ledger_count reliable
     (snd (complete_workset_assignment reliable (drift_store [''workset_001'' \<mapsto> 2] None)
             ''cat'' ''workset_001'')) ''workset_001'' = 2 \<and>
   \<not> record_has_workset reliable
     (snd (complete_workset_assignment reliable (drift_store [''workset_001'' \<mapsto> 2] None)
             ''cat'' ''workset_001'')) (record_path ''cat'') ''workset_001''"
proof -
  let ?s = "drift_store [''workset_001'' \<mapsto> 2] None"
  have r: "reads_records reliable" by (simp add: reads_records_def)
  have count: "get_real_time_usage_count reliable ?s ''workset_001'' = 2"
    using r by (rule drift_count)
  have obs: "observed_count reliable ?s ''workset_001'' 2 = 2"
    by (simp add: observed_count_def drift_ledger get_count_def)
  have inc: "update_usage_statistics_safely reliable ?s ''workset_001'' 2 =
      (True, drift_store [''workset_001'' \<mapsto> 3] None)"
    using drift_update_agreeing [of Stored Stored] by (simp add: commit_faults_reliable)
  have commit: "complete_workset_assignment reliable ?s ''cat'' ''workset_001'' =
      (False, drift_store [''workset_001'' \<mapsto> 2] (Some []))"
    using drift_commit by (simp add: commit_faults_reliable)
  show ?thesis
    using rollback_returns_incremented_count [of 2 reliable ?s "''workset_001''" 2
        "drift_store [''workset_001'' \<mapsto> 2] (Some [])" "''cat''"]
    by (simp add: count obs inc commit drift_create drift_not_completed drift_ledger
        drift_no_row get_count_def)
qed

end
